theory Spec2Isabelle
  imports Complex_Main "HOL-Library.Sublist" "HOL-Library.Log_Nat"
begin

section \<open>Campus map: the routing engine of script.js\<close>

text \<open>
  The development embeds the graph part of the class \<open>CampusMap\<close> of \<open>script.js\<close>:
  the default graph data, the shortest-path search \<open>dijkstra\<close> with \<open>generateSteps\<close>,
  the entry point \<open>findRoute\<close>, the marker drag handler of \<open>addMarkers\<close> and
  \<open>importGraph\<close>. The calls into Leaflet and the page are taken to return (but for
  \<open>L.marker\<close> on a coordinate that is no number) and their effects are left out; a
  toast is kept as the pair of its message and type.

  Conventions of the embedding.
  \<^item> A JavaScript number is a double: \<open>Num q\<close> with the rational \<open>q\<close> it stands for,
    \<open>Infinity\<close>, \<open>NegInfinity\<close> or \<open>NaN\<close>. An addition is the exact sum rounded to
    the nearest double, ties to the even significand, as IEEE 754 has it
    (\<open>round_double\<close>). The two zeros are not told apart. The weight of a connection
    is a finite number; the sum the model computes is the one of JavaScript when the
    weight is a double (\<open>weights_are_doubles\<close>), as every number read from a file is.
  \<^item> The objects \<open>graph\<close>, \<open>distances\<close> and \<open>previous\<close> that the source uses as
    dictionaries are the maps of their own properties. They are created by \<open>{}\<close>, so
    they inherit from \<open>Object.prototype\<close>: an assignment to the key \<open>__proto__\<close> runs
    the inherited setter (it stores nothing; given \<open>null\<close> or an object it changes the
    prototype), and a read of a key the object does not own gives the inherited value when
    there is one and \<open>undefined\<close> otherwise. \<open>Object.prototype\<close> is taken to have
    the properties of the language standard and no others.
  \<^item> \<open>this.graph\<close> is any value \<open>JSON.parse\<close> returns. The routing functions are
    embedded on the values that are graphs: \<open>nodes\<close> an array of objects with the strings
    \<open>id\<close> and \<open>name\<close> and the numbers \<open>lat\<close> and \<open>lng\<close>, \<open>edges\<close> an array of
    objects with the strings \<open>a\<close> and \<open>b\<close> and the number \<open>dist\<close>.
  \<^item> The \<open>Set\<close> \<open>unvisited\<close> is the list of its elements in insertion order, which is
    the order a \<open>for ... of\<close> loop visits them in.
  \<^item> An uncaught exception is the outcome \<open>Throws\<close>, a loop that never ends is
    \<open>Diverges\<close>.
  \<^item> Record fields \<open>id\<close>, \<open>name\<close>, \<open>a\<close>, \<open>b\<close>, \<open>dist\<close> carry the prefix of their
    record, since the bare names are taken or would capture variables.
\<close>

subsection \<open>Values\<close>

datatype jsnum = Num rat | Infinity | NegInfinity | NaN

text \<open>
  The values the variable \<open>current\<close> of the path loop can hold. \<open>Inherited k\<close> is the
  value of the property \<open>k\<close> of \<open>Object.prototype\<close>: that object itself for
  \<open>__proto__\<close>, a function for the other names.
\<close>

datatype jsval = Null | Undefined | Str string | Inherited string

datatype js_error = TypeError

datatype 'a outcome = Returns 'a | Throws js_error | Diverges

text \<open>The comparison \<open>x < y\<close> of two numbers; any comparison with \<open>NaN\<close> is false.\<close>

fun lt :: "jsnum \<Rightarrow> jsnum \<Rightarrow> bool" where
  "lt (Num x) (Num y) = (x < y)"
| "lt (Num x) Infinity = True"
| "lt NegInfinity (Num y) = True"
| "lt NegInfinity Infinity = True"
| "lt _ _ = False"

subsection \<open>Double precision\<close>

text \<open>
  A double has a significand of 53 bits; its least exponent makes the spacing near zero
  \<open>2^-1074\<close> and a value that rounds to \<open>2^1024\<close> or more overflows.
  \<open>pow2 k\<close> is \<open>2^k\<close>, \<open>expo x\<close> the exponent \<open>e\<close> with \<open>2^e \<le> x < 2^(e+1)\<close>,
  \<open>ulp_exp x\<close> the exponent of the spacing of the doubles at \<open>x\<close>, and \<open>rne\<close> rounds to
  the nearest integer, a tie to the even one.
\<close>

definition pow2 :: "int \<Rightarrow> rat" where
  "pow2 k = 2 powi k"

definition rne :: "rat \<Rightarrow> int" where
  "rne y = (let f = \<lfloor>y\<rfloor>; r = y - of_int f in
            if r < 1 / 2 then f else if 1 / 2 < r then f + 1 else if even f then f else f + 1)"

definition expo :: "rat \<Rightarrow> int" where
  "expo x = (let (p, q) = quotient_of x; k = bitlen p - bitlen q in if pow2 k \<le> x then k else k - 1)"

definition ulp_exp :: "rat \<Rightarrow> int" where
  "ulp_exp a = max (expo a - 52) (- 1074)"

definition round_double :: "rat \<Rightarrow> jsnum" where
  "round_double x =
     (if x = 0 then Num 0
      else
        (let a = \<bar>x\<bar>; m = rne (a / pow2 (ulp_exp a))
         in if 1024 \<le> expo a \<or> (expo a = 1023 \<and> m = 2 ^ 53)
            then (if 0 < x then Infinity else NegInfinity)
            else Num (if 0 < x then of_int m * pow2 (ulp_exp a) else - (of_int m * pow2 (ulp_exp a)))))"

text \<open>The numbers a double can hold.\<close>

definition is_double :: "rat \<Rightarrow> bool" where
  "is_double x = (round_double x = Num x)"

text \<open>\<open>x + w\<close> for a finite number \<open>w\<close>.\<close>

fun js_add :: "jsnum \<Rightarrow> rat \<Rightarrow> jsnum" where
  "js_add (Num x) w = round_double (x + w)"
| "js_add Infinity w = Infinity"
| "js_add NegInfinity w = NegInfinity"
| "js_add NaN w = NaN"

text \<open>
  \<open>Math.round\<close>: the nearest integer, a tie going up. The result is a double whenever
  the argument is one.
\<close>

fun Math_round :: "jsnum \<Rightarrow> jsnum" where
  "Math_round (Num x) = Num (of_int \<lfloor>x + 1 / 2\<rfloor>)"
| "Math_round Infinity = Infinity"
| "Math_round NegInfinity = NegInfinity"
| "Math_round NaN = NaN"

subsection \<open>The graph\<close>

datatype json =
  JNull | JBool bool | JNumber rat | JString string | JArray "json list" | JObject "(string \<times> json) list"

record node =
  node_id :: string
  node_name :: string
  lat :: rat
  lng :: rat

record edge =
  edge_a :: string
  edge_b :: string
  edge_dist :: rat

record graph =
  nodes :: "node list"
  edges :: "edge list"
  metadata :: "json option"

definition mk_node :: "string \<Rightarrow> string \<Rightarrow> rat \<Rightarrow> rat \<Rightarrow> node" where
  "mk_node i n la lo = \<lparr>node_id = i, node_name = n, lat = la, lng = lo\<rparr>"

definition mk_edge :: "string \<Rightarrow> string \<Rightarrow> rat \<Rightarrow> edge" where
  "mk_edge x y d = \<lparr>edge_a = x, edge_b = y, edge_dist = d\<rparr>"

definition getDefaultGraphData :: graph where
  "getDefaultGraphData = \<lparr>
     nodes = [
       mk_node ''main_gate'' ''Main Gate'' (131950 / 10000) (777060 / 10000),
       mk_node ''entrance_junction'' ''Entrance Junction'' (131955 / 10000) (777065 / 10000),
       mk_node ''admin_block1'' ''Admin Block 1'' (131960 / 10000) (777070 / 10000),
       mk_node ''hostel1'' ''Hostel 1'' (131965 / 10000) (777075 / 10000),
       mk_node ''academic_block1'' ''Academic Block 1'' (131970 / 10000) (777070 / 10000),
       mk_node ''academic_block2'' ''Academic Block 2'' (131970 / 10000) (777065 / 10000),
       mk_node ''library'' ''Library'' (131970 / 10000) (777060 / 10000),
       mk_node ''cafeteria'' ''Cafeteria'' (131965 / 10000) (777055 / 10000),
       mk_node ''sports_complex'' ''Sports Complex'' (131975 / 10000) (777067 / 10000),
       mk_node ''auditorium'' ''Auditorium'' (131962 / 10000) (777062 / 10000),
       mk_node ''parking_area'' ''Parking Area'' (131952 / 10000) (777062 / 10000),
       mk_node ''north_junction'' ''North Junction'' (131972 / 10000) (777067 / 10000),
       mk_node ''east_junction'' ''East Junction'' (131967 / 10000) (777072 / 10000),
       mk_node ''south_junction'' ''South Junction'' (131962 / 10000) (777067 / 10000),
       mk_node ''west_junction'' ''West Junction'' (131967 / 10000) (777062 / 10000),
       mk_node ''center_junction'' ''Center Junction'' (131967 / 10000) (777067 / 10000)],
     edges = [
       mk_edge ''main_gate'' ''entrance_junction'' 120,
       mk_edge ''entrance_junction'' ''parking_area'' 80,
       mk_edge ''entrance_junction'' ''south_junction'' 150,
       mk_edge ''south_junction'' ''west_junction'' 180,
       mk_edge ''west_junction'' ''north_junction'' 180,
       mk_edge ''north_junction'' ''east_junction'' 180,
       mk_edge ''east_junction'' ''south_junction'' 180,
       mk_edge ''south_junction'' ''center_junction'' 90,
       mk_edge ''west_junction'' ''center_junction'' 90,
       mk_edge ''north_junction'' ''center_junction'' 90,
       mk_edge ''east_junction'' ''center_junction'' 90,
       mk_edge ''south_junction'' ''admin_block1'' 100,
       mk_edge ''south_junction'' ''auditorium'' 80,
       mk_edge ''east_junction'' ''hostel1'' 120,
       mk_edge ''east_junction'' ''academic_block1'' 100,
       mk_edge ''north_junction'' ''academic_block1'' 80,
       mk_edge ''north_junction'' ''academic_block2'' 100,
       mk_edge ''north_junction'' ''sports_complex'' 150,
       mk_edge ''west_junction'' ''library'' 100,
       mk_edge ''west_junction'' ''cafeteria'' 120,
       mk_edge ''admin_block1'' ''auditorium'' 90,
       mk_edge ''hostel1'' ''academic_block1'' 140,
       mk_edge ''academic_block1'' ''academic_block2'' 80,
       mk_edge ''academic_block2'' ''library'' 80,
       mk_edge ''library'' ''cafeteria'' 120,
       mk_edge ''cafeteria'' ''parking_area'' 160,
       mk_edge ''center_junction'' ''auditorium'' 70,
       mk_edge ''sports_complex'' ''academic_block1'' 120,
       mk_edge ''sports_complex'' ''academic_block2'' 100],
     metadata = Some (JObject [
       (''source'', JString ''updated-circular-layout''),
       (''centerApprox'', JArray [JNumber (131967 / 10000), JNumber (777067 / 10000)]),
       (''lastUpdated'', JString ''2025-01-27''),
       (''description'', JString ''Chanakya University campus with circular road design and central junction system''),
       (''layout'', JString ''circular_road_with_center_hub'')])\<rparr>"

subsection \<open>dijkstra: the adjacency list\<close>

type_synonym adjacency = "string \<rightharpoonup> (string \<times> rat) list"

text \<open>
  \<open>this.graph.nodes.forEach(node => { graph[node.id] = []; })\<close>. Under the key
  \<open>__proto__\<close> the assignment makes the new array the prototype of \<open>graph\<close>, and a
  read of that key gives the array back: the entry is read and extended like an own
  property. No other value that \<open>graph\<close> inherits is an array, so a \<open>push\<close> on it
  throws as it does on \<open>undefined\<close>.
\<close>

definition init_adjacency :: "node list \<Rightarrow> adjacency" where
  "init_adjacency ns = foldl (\<lambda>m n. m(node_id n \<mapsto> [])) Map.empty ns"

text \<open>
  One round of the edge loop: \<open>graph[edge.a].push(...)\<close>, then \<open>graph[edge.b].push(...)\<close>.
  A \<open>push\<close> on \<open>undefined\<close> throws a \<open>TypeError\<close>. An entry is the pair of the fields
  \<open>node\<close> and \<open>distance\<close>.
\<close>

definition push_edge :: "adjacency \<Rightarrow> edge \<Rightarrow> js_error + adjacency" where
  "push_edge m e =
     (case m (edge_a e) of
        None \<Rightarrow> Inl TypeError
      | Some la \<Rightarrow>
          (let m1 = m(edge_a e \<mapsto> la @ [(edge_b e, edge_dist e)]) in
           case m1 (edge_b e) of
             None \<Rightarrow> Inl TypeError
           | Some lb \<Rightarrow> Inr (m1(edge_b e \<mapsto> lb @ [(edge_a e, edge_dist e)]))))"

fun push_edges :: "adjacency \<Rightarrow> edge list \<Rightarrow> js_error + adjacency" where
  "push_edges m [] = Inr m"
| "push_edges m (e # es) =
     (case push_edge m e of Inl err \<Rightarrow> Inl err | Inr m' \<Rightarrow> push_edges m' es)"

definition build_adjacency :: "graph \<Rightarrow> js_error + adjacency" where
  "build_adjacency g = push_edges (init_adjacency (nodes g)) (edges g)"

subsection \<open>dijkstra: the search\<close>

text \<open>
  The state of the search: the own properties of \<open>distances\<close> and of \<open>previous\<close>,
  whether \<open>previous\<close> still has \<open>Object.prototype\<close> as its prototype, and the set
  \<open>unvisited\<close>. The prototype of \<open>distances\<close> never changes, since only numbers are
  assigned to its keys.
\<close>

record dstate =
  distances :: "string \<rightharpoonup> jsnum"
  previous :: "string \<rightharpoonup> string option"
  previous_inherits :: bool
  unvisited :: "string list"

text \<open>The names of the properties of \<open>Object.prototype\<close>.\<close>

definition object_prototype_names :: "string list" where
  "object_prototype_names =
     [''constructor'', ''__defineGetter__'', ''__defineSetter__'', ''hasOwnProperty'',
      ''__lookupGetter__'', ''__lookupSetter__'', ''isPrototypeOf'', ''propertyIsEnumerable'',
      ''toString'', ''valueOf'', ''__proto__'', ''toLocaleString'']"

text \<open>
  An assignment \<open>distances[k] = v\<close> of a number. Under the key \<open>__proto__\<close> the inherited
  setter is called, which ignores a number; under any other key the object gets or
  changes an own property.
\<close>

definition set_distance :: "dstate \<Rightarrow> string \<Rightarrow> jsnum \<Rightarrow> dstate" where
  "set_distance st k v =
     (if k = ''__proto__'' then st else st\<lparr>distances := (distances st)(k \<mapsto> v)\<rparr>)"

text \<open>
  An assignment \<open>previous[k] = v\<close> of \<open>null\<close> (\<open>None\<close>) or of an identifier. While
  \<open>previous\<close> inherits the setter of \<open>__proto__\<close>, an assignment under that key stores
  nothing: \<open>null\<close> takes the prototype away and a string is ignored. Without the
  prototype \<open>__proto__\<close> is a key like any other.
\<close>

definition set_previous :: "dstate \<Rightarrow> string \<Rightarrow> string option \<Rightarrow> dstate" where
  "set_previous st k v =
     (if k = ''__proto__'' \<and> previous_inherits st
      then (case v of None \<Rightarrow> st\<lparr>previous_inherits := False\<rparr> | Some c \<Rightarrow> st)
      else st\<lparr>previous := (previous st)(k \<mapsto> v)\<rparr>)"

text \<open>
  A read \<open>distances[k]\<close> where a number is expected (in \<open><\<close>, \<open>+\<close>, \<open>=== Infinity\<close>
  and \<open>Math.round\<close>). A key that \<open>distances\<close> does not own gives \<open>undefined\<close> or an
  inherited object or function; each of them converts to \<open>NaN\<close> and differs from
  \<open>Infinity\<close>.
\<close>

definition get_distance :: "(string \<rightharpoonup> jsnum) \<Rightarrow> string \<Rightarrow> jsnum" where
  "get_distance d k = (case d k of None \<Rightarrow> NaN | Some v \<Rightarrow> v)"

text \<open>
  A read \<open>previous[k]\<close>: \<open>null\<close> or an identifier when \<open>previous\<close> owns the key, else
  the inherited value when there is one, else \<open>undefined\<close>. The first argument tells
  whether \<open>previous\<close> still has its prototype.
\<close>

definition get_previous :: "bool \<Rightarrow> (string \<rightharpoonup> string option) \<Rightarrow> string \<Rightarrow> jsval" where
  "get_previous inherits p k =
     (case p k of
        Some None \<Rightarrow> Null
      | Some (Some u) \<Rightarrow> Str u
      | None \<Rightarrow> if inherits \<and> k \<in> set object_prototype_names then Inherited k else Undefined)"

text \<open>\<open>unvisited.add(x)\<close> on a \<open>Set\<close> kept in insertion order.\<close>

definition set_add :: "string list \<Rightarrow> string \<Rightarrow> string list" where
  "set_add xs x = (if x \<in> set xs then xs else xs @ [x])"

text \<open>
  One round of the initialisation: \<open>distances[node.id] = Infinity\<close>,
  \<open>previous[node.id] = null\<close>, \<open>unvisited.add(node.id)\<close>.
\<close>

definition init_node :: "dstate \<Rightarrow> node \<Rightarrow> dstate" where
  "init_node st n =
     (let st1 = set_distance st (node_id n) Infinity;
          st2 = set_previous st1 (node_id n) None
      in st2\<lparr>unvisited := set_add (unvisited st2) (node_id n)\<rparr>)"

text \<open>The initialisation, with \<open>distances[startId] = 0\<close> at its end.\<close>

definition init_state :: "graph \<Rightarrow> string \<Rightarrow> dstate" where
  "init_state g startId =
     set_distance
       (foldl init_node
          \<lparr>distances = Map.empty, previous = Map.empty, previous_inherits = True, unvisited = []\<rparr>
          (nodes g))
       startId (Num 0)"

text \<open>
  The inner \<open>for (const node of unvisited)\<close> loop with its two variables \<open>current\<close>
  and \<open>minDistance\<close>; it returns \<open>current\<close>.
\<close>

fun find_min :: "(string \<rightharpoonup> jsnum) \<Rightarrow> string list \<Rightarrow> string option \<Rightarrow> jsnum \<Rightarrow> string option" where
  "find_min d [] current minDistance = current"
| "find_min d (n # ns) current minDistance =
     (if lt (get_distance d n) minDistance
      then find_min d ns (Some n) (get_distance d n)
      else find_min d ns current minDistance)"

text \<open>The \<open>forEach\<close> over the neighbours of \<open>current\<close>.\<close>

fun relax :: "string \<Rightarrow> (string \<times> rat) list \<Rightarrow> dstate \<Rightarrow> dstate" where
  "relax current [] st = st"
| "relax current ((nb, w) # rest) st =
     (let alt = js_add (get_distance (distances st) current) w in
      relax current rest
        (if lt alt (get_distance (distances st) nb)
         then set_previous (set_distance st nb alt) nb (Some current)
         else st))"

text \<open>
  One round of the \<open>while\<close> loop; \<open>None\<close> is the \<open>break\<close>. The loop's own test
  \<open>unvisited.size > 0\<close> is in \<open>main_loop\<close>.
\<close>

definition step :: "adjacency \<Rightarrow> dstate \<Rightarrow> dstate option" where
  "step adj st =
     (case find_min (distances st) (unvisited st) None Infinity of
        None \<Rightarrow> None
      | Some current \<Rightarrow>
          if get_distance (distances st) current = Infinity then None
          else
            (let st1 = st\<lparr>unvisited := removeAll current (unvisited st)\<rparr> in
             Some (case adj current of None \<Rightarrow> st1 | Some nbs \<Rightarrow> relax current nbs st1)))"

lemma find_min_mem:
  "find_min d us cur m = Some c \<Longrightarrow> c \<in> set us \<or> cur = Some c"
  by (induction us arbitrary: cur m) (auto split: if_splits)

lemma unvisited_set_distance [simp]: "unvisited (set_distance st k v) = unvisited st"
  by (simp add: set_distance_def)

lemma unvisited_set_previous [simp]: "unvisited (set_previous st k v) = unvisited st"
  by (simp add: set_previous_def split: option.splits)

lemma unvisited_relax [simp]: "unvisited (relax c nbs st) = unvisited st"
  by (induction c nbs st rule: relax.induct) (simp_all add: Let_def)

lemma step_shrinks:
  assumes "step adj st = Some st'"
  shows "length (unvisited st') < length (unvisited st)"
proof -
  from assms obtain c where c: "find_min (distances st) (unvisited st) None Infinity = Some c"
    and u: "unvisited st' = removeAll c (unvisited st)"
    by (auto simp: step_def Let_def split: option.splits if_splits)
  from find_min_mem[OF c] have "c \<in> set (unvisited st)" by simp
  then show ?thesis using u
    by (metis length_removeAll_less)
qed

function main_loop :: "adjacency \<Rightarrow> dstate \<Rightarrow> dstate" where
  "main_loop adj st =
     (if unvisited st = [] then st
      else case step adj st of None \<Rightarrow> st | Some st' \<Rightarrow> main_loop adj st')"
  by pat_completeness auto
termination
  by (relation "measure (\<lambda>(adj, st). length (unvisited st))") (auto dest: step_shrinks)

declare main_loop.simps [simp del]

text \<open>
  The run of the \<open>while\<close> loop: the state before each round, and at the end the state
  the loop is left in.
\<close>

function rounds :: "adjacency \<Rightarrow> dstate \<Rightarrow> dstate list" where
  "rounds adj st =
     (if unvisited st = [] then [st]
      else case step adj st of None \<Rightarrow> [st] | Some st' \<Rightarrow> st # rounds adj st')"
  by pat_completeness auto
termination
  by (relation "measure (\<lambda>(adj, st). length (unvisited st))") (auto dest: step_shrinks)

declare rounds.simps [simp del]

subsection \<open>dijkstra: the path and the result\<close>

text \<open>
  The key a value is converted to when it indexes an object. \<open>Object.prototype\<close> is
  converted by its own \<open>toString\<close>. An inherited function is converted to its source
  text, which for a built-in function is \<open>function\<close>, its name and
  \<open>() { [native code] }\<close>; the white space of that text is the one V8 prints. The
  function under \<open>constructor\<close> is \<open>Object\<close>, the others bear the name of their
  property.
\<close>

fun key_of :: "jsval \<Rightarrow> string" where
  "key_of (Str s) = s"
| "key_of Undefined = ''undefined''"
| "key_of Null = ''null''"
| "key_of (Inherited k) =
     (if k = ''__proto__'' then ''[object Object]''
      else ''function '' @ (if k = ''constructor'' then ''Object'' else k) @ ''() { [native code] }'')"

text \<open>
  \<open>while (current !== null) { path.unshift(current); current = previous[current]; }\<close>
  The loop need not end: \<open>None\<close> stands for a run that never leaves it.
\<close>

partial_function (option) reconstruct ::
  "bool \<Rightarrow> (string \<rightharpoonup> string option) \<Rightarrow> jsval \<Rightarrow> jsval list \<Rightarrow> jsval list option" where
  "reconstruct inherits p current acc =
     (if current = Null then Some acc
      else reconstruct inherits p (get_previous inherits p (key_of current)) (current # acc))"

declare reconstruct.simps [code]

record step_info =
  step_from :: string
  step_to :: string
  step_distance :: rat
  description :: string

record route =
  path :: "jsval list"
  distance :: jsnum
  steps :: "step_info list"

text \<open>
  \<open>this.graph.nodes.find(n => n.id === v)\<close>; an identifier is a string, so none equals
  \<open>undefined\<close> or an object.
\<close>

fun find_node :: "graph \<Rightarrow> jsval \<Rightarrow> node option" where
  "find_node g (Str s) = find (\<lambda>n. node_id n = s) (nodes g)"
| "find_node g _ = None"

text \<open>
  \<open>generateSteps\<close>: one step for each pair of neighbours in the path. Reading a field of a
  node that \<open>find\<close> did not find throws a \<open>TypeError\<close>.
\<close>

fun generateSteps :: "graph \<Rightarrow> jsval list \<Rightarrow> js_error + step_info list" where
  "generateSteps g (x # y # rest) =
     (case (find_node g x, find_node g y) of
        (Some nfrom, Some nto) \<Rightarrow>
          (let e = find (\<lambda>e. (edge_a e = node_id nfrom \<and> edge_b e = node_id nto) \<or>
                             (edge_b e = node_id nfrom \<and> edge_a e = node_id nto)) (edges g);
               s = \<lparr>step_from = node_name nfrom, step_to = node_name nto,
                    step_distance = (case e of Some e' \<Rightarrow> edge_dist e' | None \<Rightarrow> 0),
                    description = ''Head towards '' @ node_name nto\<rparr>
           in case generateSteps g (y # rest) of
                Inl err \<Rightarrow> Inl err
              | Inr ss \<Rightarrow> Inr (s # ss))
      | _ \<Rightarrow> Inl TypeError)"
| "generateSteps g _ = Inr []"

text \<open>The state when the \<open>while\<close> loop is left.\<close>

definition search :: "graph \<Rightarrow> adjacency \<Rightarrow> string \<Rightarrow> dstate" where
  "search g adj startId = main_loop adj (init_state g startId)"

text \<open>\<open>dijkstra(startId, endId)\<close>; \<open>Returns None\<close> is \<open>return null\<close>.\<close>

definition dijkstra :: "graph \<Rightarrow> string \<Rightarrow> string \<Rightarrow> route option outcome" where
  "dijkstra g startId endId =
     (case build_adjacency g of
        Inl err \<Rightarrow> Throws err
      | Inr adj \<Rightarrow>
          (let st = search g adj startId in
           if distances st endId = Some Infinity then Returns None
           else
             (case reconstruct (previous_inherits st) (previous st) (Str endId) [] of
                None \<Rightarrow> Diverges
              | Some p \<Rightarrow>
                  (case generateSteps g p of
                     Inl err \<Rightarrow> Throws err
                   | Inr ss \<Rightarrow>
                       Returns (Some \<lparr>path = p,
                                      distance = Math_round (get_distance (distances st) endId),
                                      steps = ss\<rparr>)))))"

subsection \<open>findRoute\<close>

datatype toast_type = Success | Warning | Error | Info

text \<open>
  The message of a toast: a fixed text, or the template
  \<open>Route found! Distance: ${path.distance}m\<close> with the distance it prints.
\<close>

datatype message = Text string | Route_found jsnum

type_synonym toast = "message \<times> toast_type"

text \<open>
  \<open>findRoute\<close> with the values of the two select boxes as arguments. It returns the
  toast it shows and the route it hands to \<open>displayRoute\<close>, if any. An empty string is
  falsy.
\<close>

definition findRoute :: "graph \<Rightarrow> string \<Rightarrow> string \<Rightarrow> (toast \<times> route option) outcome" where
  "findRoute g startId endId =
     (if startId = [] \<or> endId = [] then
        Returns ((Text ''Please select both start and end locations'', Warning), None)
      else if startId = endId then
        Returns ((Text ''Start and end locations cannot be the same'', Warning), None)
      else
        (case dijkstra g startId endId of
           Throws err \<Rightarrow> Throws err
         | Diverges \<Rightarrow> Diverges
         | Returns None \<Rightarrow>
             Returns ((Text ''No route found between selected locations'', Error), None)
         | Returns (Some r) \<Rightarrow> Returns ((Route_found (distance r), Success), Some r)))"

subsection \<open>The drag handler of addMarkers\<close>

text \<open>
  The \<open>dragend\<close> handler of the marker of the \<open>i\<close>-th node: the closure holds the node
  object itself, so the node is found by its position, not by its identifier.
\<close>

definition dragend :: "bool \<Rightarrow> graph \<Rightarrow> nat \<Rightarrow> rat \<Rightarrow> rat \<Rightarrow> graph" where
  "dragend isAdminMode g i la lo =
     (if isAdminMode \<and> i < length (nodes g)
      then g\<lparr>nodes := (nodes g)[i := (nodes g ! i)\<lparr>lat := la, lng := lo\<rparr>]\<rparr>
      else g)"

subsection \<open>importGraph\<close>

text \<open>What \<open>JSON.parse\<close> makes of the file's text: a syntax error or a value.\<close>

datatype file_text = Malformed | Parsed json

text \<open>
  A read \<open>v.k\<close> of one of the names \<open>nodes\<close>, \<open>edges\<close>, \<open>lat\<close>, \<open>lng\<close> and \<open>name\<close>
  on a parsed value other than \<open>null\<close>; \<open>None\<close> is \<open>undefined\<close>. Only an object can
  have such a property, and where the text has the key twice \<open>JSON.parse\<close> keeps the
  later value.
\<close>

fun field :: "string \<Rightarrow> json \<Rightarrow> json option" where
  "field k (JObject kvs) = map_of (rev kvs) k"
| "field k _ = None"

text \<open>The values that count as true in a condition.\<close>

fun truthy :: "json \<Rightarrow> bool" where
  "truthy JNull = False"
| "truthy (JBool b) = b"
| "truthy (JNumber x) = (x \<noteq> 0)"
| "truthy (JString s) = (s \<noteq> [])"
| "truthy (JArray xs) = True"
| "truthy (JObject kvs) = True"

text \<open>\<open>!v.k\<close>\<close>

definition lacks :: "json \<Rightarrow> string \<Rightarrow> bool" where
  "lacks v k = (case field k v of None \<Rightarrow> True | Some x \<Rightarrow> \<not> truthy x)"

text \<open>
  The three functions \<open>importGraph\<close> calls on the new graph, as far as they read it:
  \<open>True\<close> when the call returns, \<open>False\<close> when it throws. The calls into Leaflet and
  the page are taken to return, but for \<open>L.marker\<close>, which may throw on a coordinate
  that is no number.

  \<open>addMarkers\<close> calls \<open>this.graph.nodes.forEach\<close>, which only an array has, and for each
  node \<open>L.marker([node.lat, node.lng], ...)\<close> and then \<open>node.lat.toFixed(6)\<close> and
  \<open>node.lng.toFixed(6)\<close>, which only a number has: when \<open>L.marker\<close> has not thrown on
  a \<open>lat\<close> or \<open>lng\<close> that is no number, \<open>toFixed\<close> does.
\<close>

definition marker_ok :: "json \<Rightarrow> bool" where
  "marker_ok n =
     (case (field ''lat'' n, field ''lng'' n) of
        (Some (JNumber la), Some (JNumber lo)) \<Rightarrow> True
      | _ \<Rightarrow> False)"

definition addMarkers :: "json \<Rightarrow> bool" where
  "addMarkers g = (case field ''nodes'' g of Some (JArray ns) \<Rightarrow> list_all marker_ok ns | _ \<Rightarrow> False)"

text \<open>
  \<open>buildSearchIndex\<close> calls \<open>this.graph.nodes.map\<close> and for each node
  \<open>node.name.toLowerCase()\<close>, which only a string has.
\<close>

definition name_ok :: "json \<Rightarrow> bool" where
  "name_ok n = (case field ''name'' n of Some (JString s) \<Rightarrow> True | _ \<Rightarrow> False)"

definition buildSearchIndex :: "json \<Rightarrow> bool" where
  "buildSearchIndex g = (case field ''nodes'' g of Some (JArray ns) \<Rightarrow> list_all name_ok ns | _ \<Rightarrow> False)"

text \<open>
  \<open>populateSelects\<close> calls \<open>this.graph.nodes.forEach\<close> and reads \<open>node.name\<close> and
  \<open>node.id\<close>, which throws on the node \<open>null\<close>.
\<close>

definition populateSelects :: "json \<Rightarrow> bool" where
  "populateSelects g =
     (case field ''nodes'' g of Some (JArray ns) \<Rightarrow> list_all (\<lambda>n. n \<noteq> JNull) ns | _ \<Rightarrow> False)"

text \<open>
  \<open>importGraph(file)\<close>, given the value of \<open>this.graph\<close>: the new value of
  \<open>this.graph\<close> and the toast shown. Every exception inside the \<open>try\<close> ends in the
  \<open>catch\<close>, which shows the error toast: the \<open>SyntaxError\<close> of \<open>JSON.parse\<close>, the
  \<open>TypeError\<close> of the read \<open>newGraph.nodes\<close> when the text is \<open>null\<close>, the error
  thrown when \<open>nodes\<close> or \<open>edges\<close> is lacking, and whatever the refresh throws after
  \<open>this.graph = newGraph\<close>.
\<close>

fun importGraph :: "json \<Rightarrow> file_text option \<Rightarrow> json \<times> toast option" where
  "importGraph g None = (g, None)"
| "importGraph g (Some Malformed) = (g, Some (Text ''Error importing graph data'', Error))"
| "importGraph g (Some (Parsed newGraph)) =
     (if newGraph = JNull \<or> lacks newGraph ''nodes'' \<or> lacks newGraph ''edges''
      then (g, Some (Text ''Error importing graph data'', Error))
      else if addMarkers newGraph \<and> buildSearchIndex newGraph \<and> populateSelects newGraph
      then (newGraph, Some (Text ''Graph data imported successfully'', Success))
      else (newGraph, Some (Text ''Error importing graph data'', Error)))"




subsection \<open>Walks and validity\<close>

definition ids :: "graph \<Rightarrow> string list" where
  "ids g = map node_id (nodes g)"

text \<open>An edge can be walked in both directions: its two arcs.\<close>

definition arcs :: "graph \<Rightarrow> (string \<times> string \<times> rat) list" where
  "arcs g = concat (map (\<lambda>e. [(edge_a e, edge_b e, edge_dist e), (edge_b e, edge_a e, edge_dist e)]) (edges g))"

fun is_walk :: "graph \<Rightarrow> string \<Rightarrow> (string \<times> string \<times> rat) list \<Rightarrow> string \<Rightarrow> bool" where
  "is_walk g s [] t = (s = t)"
| "is_walk g s ((u, v, w) # q) t = (u = s \<and> (u, v, w) \<in> set (arcs g) \<and> is_walk g v q t)"

definition walk_weight :: "(string \<times> string \<times> rat) list \<Rightarrow> rat" where
  "walk_weight q = sum_list (map (\<lambda>(u, v, w). w) q)"

text \<open>The waypoints a walk from \<open>s\<close> goes through, \<open>s\<close> first.\<close>

definition walk_nodes :: "string \<Rightarrow> (string \<times> string \<times> rat) list \<Rightarrow> string list" where
  "walk_nodes s q = s # map (\<lambda>(u, v, w). v) q"

text \<open>
  The weight of a walk as the search adds it up: connection by connection from the
  start, each sum rounded to a double.
\<close>

definition walk_acc :: "(string \<times> string \<times> rat) list \<Rightarrow> jsnum" where
  "walk_acc q = foldl (\<lambda>a (u, v, w). js_add a w) (Num 0) q"

definition endpoints_exist :: "graph \<Rightarrow> bool" where
  "endpoints_exist g = (\<forall>e \<in> set (edges g). edge_a e \<in> set (ids g) \<and> edge_b e \<in> set (ids g))"

definition valid_graph :: "graph \<Rightarrow> bool" where
  "valid_graph g = (endpoints_exist g \<and> (\<forall>e \<in> set (edges g). 0 < edge_dist e))"

text \<open>Every weight is a double, as it is after \<open>JSON.parse\<close>.\<close>

definition weights_are_doubles :: "graph \<Rightarrow> bool" where
  "weights_are_doubles g = (\<forall>e \<in> set (edges g). is_double (edge_dist e))"

text \<open>Every weight is a whole number of at most \<open>2^53\<close>.\<close>

definition integer_weights :: "graph \<Rightarrow> bool" where
  "integer_weights g =
     (\<forall>e \<in> set (edges g). of_int \<lfloor>edge_dist e\<rfloor> = edge_dist e \<and> edge_dist e \<le> 2 ^ 53)"

definition is_min_walk_acc :: "graph \<Rightarrow> string \<Rightarrow> string \<Rightarrow> rat \<Rightarrow> bool" where
  "is_min_walk_acc g s t m =
     ((\<exists>q. is_walk g s q t \<and> walk_acc q = Num m) \<and>
      (\<forall>q y. is_walk g s q t \<and> walk_acc q = Num y \<longrightarrow> m \<le> y))"

definition is_min_walk_weight :: "graph \<Rightarrow> string \<Rightarrow> string \<Rightarrow> rat \<Rightarrow> bool" where
  "is_min_walk_weight g s t m =
     ((\<exists>q. is_walk g s q t \<and> walk_weight q = m) \<and> (\<forall>q. is_walk g s q t \<longrightarrow> m \<le> walk_weight q))"

section \<open>Notions used in the proofs\<close>

text \<open>The spacing of the doubles around a positive number, and the nearest multiple.\<close>

definition nearest :: "rat \<Rightarrow> rat" where
  "nearest a = of_int (rne (a / pow2 (ulp_exp a))) * pow2 (ulp_exp a)"

definition out_arcs :: "edge list \<Rightarrow> string \<Rightarrow> (string \<times> rat) list" where
  "out_arcs es k = concat (map (\<lambda>e. (if edge_a e = k then [(edge_b e, edge_dist e)] else []) @
                                      (if edge_b e = k then [(edge_a e, edge_dist e)] else [])) es)"

text \<open>\<open>a \<le> b\<close> for two numbers, false when one of them is \<open>NaN\<close>.\<close>

definition le :: "jsnum \<Rightarrow> jsnum \<Rightarrow> bool" where
  "le a b = (a \<noteq> NaN \<and> b \<noteq> NaN \<and> \<not> lt b a)"

text \<open>The values a distance can take on a valid graph.\<close>

definition good :: "jsnum \<Rightarrow> bool" where
  "good a = (a = Infinity \<or> (\<exists>x. a = Num x \<and> 0 \<le> x \<and> is_double x))"

text \<open>One round of the \<open>forEach\<close> over the neighbours.\<close>

definition relax1 :: "string \<Rightarrow> string \<Rightarrow> rat \<Rightarrow> dstate \<Rightarrow> dstate" where
  "relax1 c nb w st =
     (let alt = js_add (get_distance (distances st) c) w in
      if lt alt (get_distance (distances st) nb)
      then set_previous (set_distance st nb alt) nb (Some c)
      else st)"

definition relax_pre :: "string \<Rightarrow> rat \<Rightarrow> dstate \<Rightarrow> bool" where
  "relax_pre c x st =
     (distances st c = Some (Num x) \<and> good (Num x) \<and> (\<forall>v. distances st v \<noteq> Some NaN) \<and>
      distances st ''__proto__'' = None)"

text \<open>What a run of relaxations from \<open>c\<close> (at distance \<open>x\<close>) over \<open>nbs\<close> did to \<open>v\<close>.\<close>

definition relaxed_to ::
  "string \<Rightarrow> rat \<Rightarrow> (string \<times> rat) list \<Rightarrow> dstate \<Rightarrow> dstate \<Rightarrow> string \<Rightarrow> bool" where
  "relaxed_to c x nbs st st' v =
     ((distances st' v = distances st v \<and> previous st' v = previous st v) \<or>
      (\<exists>w. (v, w) \<in> set nbs \<and> distances st' v = Some (js_add (Num x) w) \<and>
           previous st' v = Some (Some c) \<and>
           lt (js_add (Num x) w) (get_distance (distances st) v)))"

text \<open>The waypoints the loop has taken out of \<open>unvisited\<close>.\<close>

definition visited :: "graph \<Rightarrow> dstate \<Rightarrow> string set" where
  "visited g st = set (ids g) - set (unvisited st)"

text \<open>Each waypoint of the list but the first has the one before it as its \<open>previous\<close>.\<close>

fun chain_links :: "(string \<rightharpoonup> string option) \<Rightarrow> string list \<Rightarrow> bool" where
  "chain_links p (x # y # ns) = (p y = Some (Some x) \<and> chain_links p (y # ns))"
| "chain_links p _ = True"

text \<open>
  The invariant. Every distance is \<open>Infinity\<close> or a non-negative double, and finite at a
  visited waypoint (\<open>inv_shape\<close>); no visited waypoint is farther than an unvisited one
  (\<open>inv_mono\<close>); the distance of a visited waypoint is at most the sum of any walk to it
  (\<open>inv_lower\<close>); the connections of a visited waypoint are relaxed (\<open>inv_relaxed\<close>); a
  finite distance is the sum of a walk that \<open>previous\<close> records (\<open>inv_chain\<close>).
\<close>

definition inv_shape :: "graph \<Rightarrow> string \<Rightarrow> dstate \<Rightarrow> bool" where
  "inv_shape g s st =
     (set (unvisited st) \<subseteq> set (ids g) \<and> distinct (unvisited st) \<and>
      (\<forall>v \<in> set (ids g). \<exists>z. distances st v = Some z \<and> good z) \<and>
      (\<forall>v. distances st v \<noteq> Some NaN) \<and>
      distances st s = Some (Num 0) \<and> previous st s = Some None \<and>
      (\<forall>v \<in> visited g st. \<exists>x. distances st v = Some (Num x)) \<and>
      distances st ''__proto__'' = None)"

definition inv_mono :: "graph \<Rightarrow> dstate \<Rightarrow> bool" where
  "inv_mono g st =
     (\<forall>v \<in> visited g st. \<forall>u \<in> set (unvisited st).
        le (get_distance (distances st) v) (get_distance (distances st) u))"

definition inv_lower :: "graph \<Rightarrow> string \<Rightarrow> dstate \<Rightarrow> bool" where
  "inv_lower g s st =
     (\<forall>v \<in> visited g st. \<forall>q. is_walk g s q v \<longrightarrow> le (get_distance (distances st) v) (walk_acc q))"

definition inv_relaxed :: "graph \<Rightarrow> dstate \<Rightarrow> bool" where
  "inv_relaxed g st =
     (\<forall>v \<in> visited g st. \<forall>u w. (v, u, w) \<in> set (arcs g) \<longrightarrow>
        le (get_distance (distances st) u) (js_add (get_distance (distances st) v) w))"

definition inv_chain :: "graph \<Rightarrow> string \<Rightarrow> dstate \<Rightarrow> bool" where
  "inv_chain g s st =
     (\<forall>v x. distances st v = Some (Num x) \<longrightarrow>
        (\<exists>q. is_walk g s q v \<and> walk_acc q = Num x \<and>
           chain_links (previous st) (walk_nodes s q) \<and>
           set (butlast (walk_nodes s q)) \<subseteq> visited g st))"

definition dijkstra_inv :: "graph \<Rightarrow> string \<Rightarrow> dstate \<Rightarrow> bool" where
  "dijkstra_inv g s st =
     (inv_shape g s st \<and> inv_mono g st \<and> inv_lower g s st \<and> inv_relaxed g st \<and> inv_chain g s st)"

definition adjacency_of :: "graph \<Rightarrow> adjacency \<Rightarrow> bool" where
  "adjacency_of g adj = (\<forall>k. adj k = (if k \<in> set (ids g) then Some (out_arcs (edges g) k) else None))"

definition exhausted :: "dstate \<Rightarrow> bool" where
  "exhausted st = (\<forall>u \<in> set (unvisited st). distances st u = Some Infinity)"

text \<open>A distance other than \<open>Infinity\<close> belongs to a waypoint some walk reaches.\<close>

definition reach_inv :: "graph \<Rightarrow> string \<Rightarrow> dstate \<Rightarrow> bool" where
  "reach_inv g s st =
     ((\<forall>v z. distances st v = Some z \<and> z \<noteq> Infinity \<longrightarrow> (\<exists>q. is_walk g s q v)) \<and>
      (\<forall>v \<in> set (ids g). v \<noteq> ''__proto__'' \<longrightarrow> (\<exists>z. distances st v = Some z)) \<and>
      distances st ''__proto__'' = None)"

definition rev_walk :: "(string \<times> string \<times> rat) list \<Rightarrow> (string \<times> string \<times> rat) list" where
  "rev_walk q = rev (map (\<lambda>(u, v, w). (v, u, w)) q)"

text \<open>
  Small graphs for concrete instances: one with a fractional weight and an isolated
  waypoint, one whose only connection names a waypoint that does not exist.
\<close>

definition sample_graph :: graph where
  "sample_graph = \<lparr>
     nodes = [mk_node ''p'' ''P'' 0 0, mk_node ''q'' ''Q'' 0 1, mk_node ''r'' ''R'' 1 1, mk_node ''z'' ''Z'' 2 2],
     edges = [mk_edge ''p'' ''q'' (3 / 2), mk_edge ''q'' ''r'' 2, mk_edge ''p'' ''r'' 4],
     metadata = None\<rparr>"

definition dangling_graph :: graph where
  "dangling_graph = \<lparr>
     nodes = [mk_node ''p'' ''P'' 0 0, mk_node ''q'' ''Q'' 0 1],
     edges = [mk_edge ''p'' ''ghost'' 1],
     metadata = None\<rparr>"

text \<open>
  A chain of four waypoints with the weights \<open>0.1\<close>, \<open>0.6\<close> and \<open>3.8\<close> as a file
  gives them: each is the double nearest to the decimal.
\<close>

definition float_graph :: graph where
  "float_graph = \<lparr>
     nodes = [mk_node ''a'' ''A'' 0 0, mk_node ''b'' ''B'' 0 1, mk_node ''c'' ''C'' 1 1, mk_node ''d'' ''D'' 2 2],
     edges = [mk_edge ''a'' ''b'' (3602879701896397 / 36028797018963968),
              mk_edge ''b'' ''c'' (5404319552844595 / 9007199254740992),
              mk_edge ''c'' ''d'' (4278419646001971 / 1125899906842624)],
     metadata = None\<rparr>"

text \<open>The route \<open>dijkstra\<close> returns from the main gate to the library.\<close>

definition library_route :: route where
  "library_route = \<lparr>
     path = [Str ''main_gate'', Str ''entrance_junction'', Str ''parking_area'', Str ''cafeteria'', Str ''library''],
     distance = Num 480,
     steps = [
       \<lparr>step_from = ''Main Gate'', step_to = ''Entrance Junction'', step_distance = 120,
        description = ''Head towards Entrance Junction''\<rparr>,
       \<lparr>step_from = ''Entrance Junction'', step_to = ''Parking Area'', step_distance = 80,
        description = ''Head towards Parking Area''\<rparr>,
       \<lparr>step_from = ''Parking Area'', step_to = ''Cafeteria'', step_distance = 160,
        description = ''Head towards Cafeteria''\<rparr>,
       \<lparr>step_from = ''Cafeteria'', step_to = ''Library'', step_distance = 120,
        description = ''Head towards Library''\<rparr>]\<rparr>"

text \<open>The identifiers and names of the waypoints, and the connections.\<close>

definition routing_view :: "graph \<Rightarrow> (string \<times> string) list \<times> edge list" where
  "routing_view g = (map (\<lambda>n. (node_id n, node_name n)) (nodes g), edges g)"

text \<open>Two waypoints at the same distance from the start.\<close>

definition tie_graph :: graph where
  "tie_graph = \<lparr>
     nodes = [mk_node ''a'' ''A'' 0 0, mk_node ''b'' ''B'' 0 1, mk_node ''c'' ''C'' 1 0],
     edges = [mk_edge ''a'' ''c'' 3, mk_edge ''a'' ''b'' 3],
     metadata = None\<rparr>"

text \<open>
  Two ways of the same length from \<open>a\<close> to \<open>d\<close>, through \<open>b\<close> or through \<open>c\<close>; the
  second graph lists \<open>c\<close> before \<open>b\<close>.
\<close>

definition diamond :: graph where
  "diamond = \<lparr>
     nodes = [mk_node ''a'' ''A'' 0 0, mk_node ''b'' ''B'' 0 1, mk_node ''c'' ''C'' 1 0, mk_node ''d'' ''D'' 1 1],
     edges = [mk_edge ''a'' ''b'' 1, mk_edge ''a'' ''c'' 1, mk_edge ''b'' ''d'' 1, mk_edge ''c'' ''d'' 1],
     metadata = None\<rparr>"

definition diamond_swapped :: graph where
  "diamond_swapped = \<lparr>
     nodes = [mk_node ''a'' ''A'' 0 0, mk_node ''c'' ''C'' 1 0, mk_node ''b'' ''B'' 0 1, mk_node ''d'' ''D'' 1 1],
     edges = [mk_edge ''a'' ''b'' 1, mk_edge ''a'' ''c'' 1, mk_edge ''b'' ''d'' 1, mk_edge ''c'' ''d'' 1],
     metadata = None\<rparr>"

text \<open>A graph with a waypoint called \<open>__proto__\<close>, joined to \<open>p\<close>; \<open>q\<close> is on its own.\<close>

definition proto_graph :: graph where
  "proto_graph = \<lparr>
     nodes = [mk_node ''__proto__'' ''Proto'' 0 0, mk_node ''p'' ''P'' 0 1, mk_node ''q'' ''Q'' 1 1],
     edges = [mk_edge ''p'' ''__proto__'' 2],
     metadata = None\<rparr>"

text \<open>The state the loop is left in, when the adjacency list could be built.\<close>

definition search_of :: "graph \<Rightarrow> string \<Rightarrow> dstate option" where
  "search_of g s = (case build_adjacency g of Inl err \<Rightarrow> None | Inr adj \<Rightarrow> Some (search g adj s))"

text \<open>The search writes nothing under a key that is no identifier.\<close>

definition keys_inv :: "graph \<Rightarrow> dstate \<Rightarrow> bool" where
  "keys_inv g st =
     ((\<forall>v. v \<notin> set (ids g) \<longrightarrow> previous st v = None \<and> distances st v \<noteq> Some Infinity) \<and>
      distances st ''__proto__'' = None)"

text \<open>The adjacency list of a graph whose connections join existing waypoints.\<close>

definition adjacency_list :: "graph \<Rightarrow> adjacency" where
  "adjacency_list g = (case build_adjacency g of Inl err \<Rightarrow> Map.empty | Inr adj \<Rightarrow> adj)"

section \<open>Properties of the search\<close>

subsection \<open>Rounding to a double\<close>

text \<open>
  What the proofs use of the rounding: it keeps the order of the non-negative numbers
  (\<open>round_double_mono\<close>), what it returns is a double (\<open>round_double_is_double\<close>), and
  the whole numbers from 0 to \<open>2^53\<close> are doubles (\<open>is_double_of_int\<close>).
\<close>

lemma powi_nat: "0 \<le> k \<Longrightarrow> pow2 k = 2 ^ nat k"
  by (simp add: pow2_def power_int_def)

lemma powi_pos [simp]: "0 < pow2 k"
  by (simp add: pow2_def power_int_def)

lemma powi_nonneg [simp]: "0 \<le> pow2 k"
  by (simp add: pow2_def)

lemma powi_ne0 [simp]: "pow2 k \<noteq> 0"
  by (simp add: pow2_def)

lemma pow2_0 [simp]: "pow2 0 = 1"
  by (simp add: pow2_def)

lemma div_pow2: "x = k * pow2 v \<Longrightarrow> x / pow2 v = k"
  by simp

lemma powi_add2: "pow2 (a + b) = pow2 a * pow2 b"
  by (simp add: pow2_def power_int_add)

lemma powi_mono2: "a \<le> b \<Longrightarrow> pow2 a \<le> pow2 b"
  by (simp add: pow2_def power_int_increasing)

lemma powi_strict_mono2: "a < b \<Longrightarrow> pow2 a < pow2 b"
  by (simp add: pow2_def power_int_strict_increasing)

lemma powi_diff2: "pow2 (a - b) = pow2 a / pow2 b"
  unfolding pow2_def by (rule power_int_diff) simp

lemma powi_less_cancel: "pow2 a < pow2 b \<Longrightarrow> a < b"
  by (metis not_le not_less powi_mono2)

lemma int_bitlen_rat:
  assumes "0 < p"
  shows "pow2 (bitlen p - 1) \<le> of_int p" "(of_int p :: rat) < pow2 (bitlen p)"
proof -
  from bitlen_bounds[OF assms] have b: "2 ^ nat (bitlen p - 1) \<le> p" "p < 2 ^ nat (bitlen p)" by auto
  have pos: "0 < bitlen p" using assms bitlen_nonneg[of p] bitlen_eq_zero_iff[of p] by (simp add: order.strict_iff_order)
  have "pow2 (bitlen p - 1) = of_int (2 ^ nat (bitlen p - 1))"
    using pos by (simp add: powi_nat)
  also have "\<dots> \<le> of_int p" using b(1) by (simp only: of_int_le_iff)
  finally show "pow2 (bitlen p - 1) \<le> of_int p" .
  have "(of_int p :: rat) < of_int (2 ^ nat (bitlen p))" using b(2) by (simp only: of_int_less_iff)
  also have "\<dots> = pow2 (bitlen p)" using pos by (simp add: powi_nat)
  finally show "(of_int p :: rat) < pow2 (bitlen p)" .
qed

lemma expo_bounds:
  assumes "0 < x"
  shows "pow2 (expo x) \<le> x" "x < pow2 (expo x + 1)"
proof -
  obtain p q where pq: "quotient_of x = (p, q)" by (cases "quotient_of x")
  have q: "0 < q" using quotient_of_denom_pos[OF pq] .
  have x: "x = of_int p / of_int q" using quotient_of_div[OF pq] .
  have p: "0 < p" using assms q x by (simp add: zero_less_divide_iff)
  let ?k = "bitlen p - bitlen q"
  note bp = int_bitlen_rat[OF p] and bq = int_bitlen_rat[OF q]
  have qpos: "(0::rat) < of_int q" using q by simp
  have up: "x < pow2 (?k + 1)"
  proof -
    have "x < pow2 (bitlen p) / of_int q" unfolding x using bp(2) qpos by (simp add: divide_strict_right_mono)
    also have "\<dots> \<le> pow2 (bitlen p) / pow2 (bitlen q - 1)"
      using bq(1) by (simp add: frac_le)
    also have "\<dots> = pow2 (bitlen p - (bitlen q - 1))"
      by (simp only: powi_diff2)
    also have "bitlen p - (bitlen q - 1) = ?k + 1" by simp
    finally show ?thesis .
  qed
  have lo: "pow2 (?k - 1) < x"
  proof -
    have "?k - 1 = bitlen p - 1 - bitlen q" by simp
    then have "pow2 (?k - 1) = pow2 (bitlen p - 1) / pow2 (bitlen q)"
      by (simp only: powi_diff2)
    also have "\<dots> < pow2 (bitlen p - 1) / of_int q"
      using bq(2) qpos by (simp add: divide_strict_left_mono)
    also have "\<dots> \<le> x" unfolding x using bp(1) qpos by (simp add: divide_right_mono)
    finally show ?thesis .
  qed
  have e: "expo x = (if pow2 ?k \<le> x then ?k else ?k - 1)"
    by (simp add: expo_def pq Let_def)
  show "pow2 (expo x) \<le> x" using lo by (simp add: e less_imp_le)
  show "x < pow2 (expo x + 1)" using up by (auto simp: e not_le)
qed

lemma expo_unique:
  assumes "pow2 e \<le> x" "x < pow2 (e + 1)"
  shows "expo x = e"
proof -
  have x: "0 < x" using assms(1) powi_pos[of e] by (rule less_le_trans[rotated])
  note b = expo_bounds[OF x]
  have "pow2 e < pow2 (expo x + 1)" using assms(1) b(2) by (rule le_less_trans)
  then have 1: "e < expo x + 1" by (rule powi_less_cancel)
  have "pow2 (expo x) < pow2 (e + 1)" using b(1) assms(2) by (rule le_less_trans)
  then have 2: "expo x < e + 1" by (rule powi_less_cancel)
  from 1 2 show ?thesis by simp
qed

lemma expo_mono:
  assumes "0 < x" "x \<le> y"
  shows "expo x \<le> expo y"
proof -
  have y: "0 < y" using assms by simp
  have "pow2 (expo x) \<le> x" using expo_bounds(1)[OF assms(1)] .
  also have "\<dots> \<le> y" by fact
  also have "\<dots> < pow2 (expo y + 1)" using expo_bounds(2)[OF y] .
  finally have "expo x < expo y + 1" by (rule powi_less_cancel)
  then show ?thesis by simp
qed

lemma rne_cases:
  "rne y = \<lfloor>y\<rfloor> \<or> rne y = \<lfloor>y\<rfloor> + 1"
  by (simp add: rne_def Let_def)

lemma rne_of_int [simp]: "rne (of_int n) = n"
  by (simp add: rne_def Let_def)

lemma rne_ge: "of_int k \<le> y \<Longrightarrow> k \<le> rne y"
proof -
  assume "of_int k \<le> y"
  then have "k \<le> \<lfloor>y\<rfloor>" by (simp add: le_floor_iff)
  with rne_cases[of y] show ?thesis by auto
qed

lemma rne_le: "y \<le> of_int k \<Longrightarrow> rne y \<le> k"
proof (cases "y = of_int k")
  case True
  then show ?thesis by simp
next
  case False
  assume "y \<le> of_int k"
  with False have "y < of_int k" by simp
  then have "\<lfloor>y\<rfloor> < k" by (simp add: floor_less_iff)
  with rne_cases[of y] show ?thesis by auto
qed

lemma rne_mono:
  assumes "y \<le> z"
  shows "rne y \<le> rne z"
proof (cases "\<lfloor>y\<rfloor> = \<lfloor>z\<rfloor>")
  case True
  from assms have "y - of_int \<lfloor>y\<rfloor> \<le> z - of_int \<lfloor>y\<rfloor>" by simp
  then show ?thesis unfolding rne_def Let_def True[symmetric] by auto
next
  case False
  from assms have "\<lfloor>y\<rfloor> \<le> \<lfloor>z\<rfloor>" by (rule floor_mono)
  with False have "\<lfloor>y\<rfloor> + 1 \<le> \<lfloor>z\<rfloor>" by simp
  moreover have "rne y \<le> \<lfloor>y\<rfloor> + 1" using rne_cases[of y] by auto
  moreover have "\<lfloor>z\<rfloor> \<le> rne z" using rne_cases[of z] by auto
  ultimately show ?thesis by simp
qed

lemma rne_nonneg: "0 \<le> y \<Longrightarrow> 0 \<le> rne y"
  using rne_ge[of 0 y] by simp

lemma ulp_exp_mono: "0 < x \<Longrightarrow> x \<le> y \<Longrightarrow> ulp_exp x \<le> ulp_exp y"
  using expo_mono[of x y] by (simp add: ulp_exp_def)

lemma nearest_ge_grid:
  assumes "of_int k * pow2 (ulp_exp a) \<le> a"
  shows "of_int k * pow2 (ulp_exp a) \<le> nearest a"
proof -
  from assms have "of_int k \<le> a / pow2 (ulp_exp a)"
    by (simp add: pos_le_divide_eq)
  from rne_ge[OF this] show ?thesis
    unfolding nearest_def by (simp add: mult_right_mono)
qed

lemma nearest_le_grid:
  assumes "a \<le> of_int k * pow2 (ulp_exp a)"
  shows "nearest a \<le> of_int k * pow2 (ulp_exp a)"
proof -
  from assms have "a / pow2 (ulp_exp a) \<le> of_int k"
    by (simp add: pos_divide_le_eq)
  from rne_le[OF this] show ?thesis
    unfolding nearest_def by (simp add: mult_right_mono)
qed

lemma powi_grid:
  assumes "u \<le> e"
  shows "pow2 e = of_int (2 ^ nat (e - u)) * pow2 u"
proof -
  have "pow2 e = pow2 (e - u) * pow2 u"
    using powi_add2[of "e - u" u] by simp
  also have "pow2 (e - u) = of_int (2 ^ nat (e - u))"
    using assms by (simp add: powi_nat)
  finally show ?thesis .
qed

lemma nearest_nonneg: "0 \<le> a \<Longrightarrow> 0 \<le> nearest a"
  unfolding nearest_def using rne_nonneg[of "a / pow2 (ulp_exp a)"] by simp

lemma nearest_lower:
  assumes "0 < a" "e \<le> expo a" "ulp_exp a \<le> e"
  shows "pow2 e \<le> nearest a"
proof -
  have "pow2 e \<le> a"
    using powi_mono2[OF assms(2)] expo_bounds(1)[OF assms(1)] by simp
  then have "of_int (2 ^ nat (e - ulp_exp a)) * pow2 (ulp_exp a) \<le> a"
    using powi_grid[OF assms(3)] by simp
  from nearest_ge_grid[OF this] show ?thesis using powi_grid[OF assms(3)] by simp
qed

lemma nearest_upper:
  assumes "0 < a" "expo a < e" "ulp_exp a \<le> e"
  shows "nearest a \<le> pow2 e"
proof -
  have "a < pow2 (expo a + 1)" using expo_bounds(2)[OF assms(1)] .
  also have "\<dots> \<le> pow2 e" using assms(2) by (intro powi_mono2) simp
  finally have "a \<le> of_int (2 ^ nat (e - ulp_exp a)) * pow2 (ulp_exp a)"
    using powi_grid[OF assms(3)] by simp
  from nearest_le_grid[OF this] show ?thesis using powi_grid[OF assms(3)] by simp
qed

lemma nearest_mono:
  assumes "0 < x" "x \<le> y"
  shows "nearest x \<le> nearest y"
proof (cases "ulp_exp x = ulp_exp y")
  case True
  have "x / pow2 (ulp_exp y) \<le> y / pow2 (ulp_exp y)"
    using assms(2) by (simp add: divide_right_mono)
  from rne_mono[OF this] show ?thesis
    unfolding nearest_def True by (simp add: mult_right_mono)
next
  case False
  have y: "0 < y" using assms by simp
  from False ulp_exp_mono[OF assms] have lt: "ulp_exp x < ulp_exp y" by simp
  then have uy: "ulp_exp y = expo y - 52" and ex: "expo x < expo y"
    by (auto simp: ulp_exp_def max_def split: if_splits)
  have "nearest x \<le> pow2 (expo y)"
    using nearest_upper[OF assms(1) ex] lt uy by simp
  also have "\<dots> \<le> nearest y"
    using nearest_lower[OF y order_refl] uy by simp
  finally show ?thesis .
qed

lemma ulp_exp_le_expo: "- 1074 \<le> expo a \<Longrightarrow> ulp_exp a \<le> expo a"
  by (simp add: ulp_exp_def)

lemma ulp_exp_ge: "- 1074 \<le> ulp_exp a"
  by (simp add: ulp_exp_def)

lemma overflow_iff:
  assumes "0 < a"
  shows "(1024 \<le> expo a \<or> (expo a = 1023 \<and> rne (a / pow2 (ulp_exp a)) = 2 ^ 53)) \<longleftrightarrow>
         pow2 1024 \<le> nearest a"
proof
  assume "1024 \<le> expo a \<or> (expo a = 1023 \<and> rne (a / pow2 (ulp_exp a)) = 2 ^ 53)"
  then show "pow2 1024 \<le> nearest a"
  proof
    assume e: "1024 \<le> expo a"
    then have "pow2 1024 \<le> pow2 (expo a)" by (rule powi_mono2)
    also have "\<dots> \<le> nearest a"
      using nearest_lower[OF assms order_refl] ulp_exp_le_expo[of a] e by simp
    finally show ?thesis .
  next
    assume e: "expo a = 1023 \<and> rne (a / pow2 (ulp_exp a)) = 2 ^ 53"
    then have u: "ulp_exp a = 971" by (simp add: ulp_exp_def)
    have "nearest a = of_int (2 ^ 53) * pow2 971"
      unfolding nearest_def using e u by simp
    also have "\<dots> = pow2 1024"
      using powi_grid[of 971 1024] by simp
    finally show ?thesis by simp
  qed
next
  assume big: "pow2 1024 \<le> nearest a"
  show "1024 \<le> expo a \<or> (expo a = 1023 \<and> rne (a / pow2 (ulp_exp a)) = 2 ^ 53)"
  proof (rule ccontr)
    assume neg: "\<not> ?thesis"
    then have e: "expo a < 1024" by simp
    then have u: "ulp_exp a \<le> 971" by (simp add: ulp_exp_def)
    have "expo a = 1023"
    proof (rule ccontr)
      assume "expo a \<noteq> 1023"
      with e have "expo a < 1023" by simp
      from nearest_upper[OF assms this] u have "nearest a \<le> pow2 1023" by simp
      also have "\<dots> < pow2 1024" by (rule powi_strict_mono2) simp
      finally show False using big by simp
    qed
    then have u971: "ulp_exp a = 971" by (simp add: ulp_exp_def)
    from nearest_upper[OF assms e] u have "nearest a \<le> pow2 1024" by simp
    with big have "nearest a = pow2 1024" by simp
    then have "of_int (rne (a / pow2 971)) * pow2 971 = of_int (2 ^ 53) * pow2 971"
      unfolding nearest_def u971 using powi_grid[of 971 1024] by simp
    then have "(of_int (rne (a / pow2 971)) :: rat) = of_int (2 ^ 53)"
      by (simp only: mult_right_cancel[OF less_imp_neq[OF powi_pos, symmetric]])
    then have "rne (a / pow2 971) = 2 ^ 53" by (simp only: of_int_eq_iff)
    with neg \<open>expo a = 1023\<close> u971 show False by simp
  qed
qed

lemma round_double_pos:
  assumes "0 < x"
  shows "round_double x = (if pow2 1024 \<le> nearest x then Infinity else Num (nearest x))"
proof -
  have "round_double x =
      (if 1024 \<le> expo x \<or> (expo x = 1023 \<and> rne (x / pow2 (ulp_exp x)) = 2 ^ 53)
       then Infinity else Num (nearest x))"
    using assms by (simp add: round_double_def Let_def nearest_def)
  then show ?thesis using overflow_iff[OF assms] by simp
qed

lemma round_double_0 [simp]: "round_double 0 = Num 0"
  by (simp add: round_double_def)

lemma round_double_mono:
  assumes "0 \<le> x" "x \<le> y" "round_double y = Num b"
  shows "\<exists>a. round_double x = Num a \<and> 0 \<le> a \<and> a \<le> b"
proof (cases "x = 0")
  case True
  have "0 \<le> b"
  proof (cases "y = 0")
    case True
    with assms(3) show ?thesis by simp
  next
    case False
    with assms have y: "0 < y" by simp
    from assms(3) have "b = nearest y" by (simp add: round_double_pos[OF y] split: if_splits)
    with nearest_nonneg[of y] y show ?thesis by simp
  qed
  with True show ?thesis by simp
next
  case False
  with assms have x: "0 < x" and y: "0 < y" by simp_all
  from assms(3) have b: "b = nearest y" "\<not> pow2 1024 \<le> nearest y"
    by (simp_all add: round_double_pos[OF y] split: if_splits)
  have le: "nearest x \<le> nearest y" using nearest_mono[OF x assms(2)] .
  with b(2) have "\<not> pow2 1024 \<le> nearest x" by simp
  then have "round_double x = Num (nearest x)" by (simp add: round_double_pos[OF x])
  with le b(1) nearest_nonneg[of x] x show ?thesis by simp
qed

lemma nearest_grid:
  assumes m: "0 < m" "m \<le> 2 ^ 53" and u: "- 1074 \<le> u"
  shows "nearest (of_int m * pow2 u) = of_int m * pow2 u"
proof -
  let ?r = "of_int m * pow2 u"
  have r: "0 < ?r" using m(1) by simp
  have "(of_int m :: rat) \<le> of_int (2 ^ 53)" using m(2) by (simp only: of_int_le_iff)
  then have "?r \<le> of_int (2 ^ 53) * pow2 u" by (simp add: mult_right_mono)
  also have "\<dots> = pow2 (u + 53)" using powi_grid[of u "u + 53"] by simp
  finally have top: "?r \<le> pow2 (u + 53)" .
  have e53: "expo ?r \<le> u + 53"
  proof (rule ccontr)
    assume "\<not> expo ?r \<le> u + 53"
    then have "u + 53 < expo ?r" by simp
    then have "pow2 (u + 53) < pow2 (expo ?r)" by (rule powi_strict_mono2)
    also have "\<dots> \<le> ?r" using expo_bounds(1)[OF r] .
    finally show False using top by simp
  qed
  show ?thesis
  proof (cases "expo ?r = u + 53")
    case True
    have "pow2 (u + 53) \<le> ?r" using expo_bounds(1)[OF r] True by simp
    with top have req: "?r = pow2 (u + 53)" by simp
    have ulp: "ulp_exp ?r = u + 1" using True u by (simp add: ulp_exp_def)
    have "?r = of_int (2 ^ 52) * pow2 (u + 1)"
      unfolding req using powi_grid[of "u + 1" "u + 53"] by simp
    then have "?r / pow2 (u + 1) = of_int (2 ^ 52)" by simp
    then have "nearest ?r = of_int (2 ^ 52) * pow2 (u + 1)"
      unfolding nearest_def ulp by (simp only: rne_of_int)
    also have "\<dots> = ?r" unfolding req using powi_grid[of "u + 1" "u + 53"] by simp
    finally show ?thesis .
  next
    case False
    with e53 have "expo ?r \<le> u + 52" by simp
    then have ulp: "ulp_exp ?r \<le> u" using u by (simp add: ulp_exp_def)
    let ?v = "ulp_exp ?r"
    have g: "pow2 u = of_int (2 ^ nat (u - ?v)) * pow2 ?v" using powi_grid[OF ulp] .
    have "?r = of_int m * (of_int (2 ^ nat (u - ?v)) * pow2 ?v)"
      by (subst g) (rule refl)
    also have "\<dots> = of_int (m * 2 ^ nat (u - ?v)) * pow2 ?v"
      by (simp only: of_int_mult mult.assoc)
    finally have req: "?r = of_int (m * 2 ^ nat (u - ?v)) * pow2 ?v" .
    then have q: "?r / pow2 ?v = of_int (m * 2 ^ nat (u - ?v))"
      by (rule div_pow2)
    have "nearest ?r = of_int (m * 2 ^ nat (u - ?v)) * pow2 ?v"
      unfolding nearest_def q by (simp only: rne_of_int)
    also have "\<dots> = ?r" by (rule req[symmetric])
    finally show ?thesis .
  qed
qed

lemma nearest_sig_le:
  assumes "0 < a"
  shows "rne (a / pow2 (ulp_exp a)) \<le> 2 ^ 53"
proof -
  have "a < pow2 (expo a + 1)" using expo_bounds(2)[OF assms] .
  also have "\<dots> \<le> pow2 (ulp_exp a + 53)"
    by (rule powi_mono2) (simp add: ulp_exp_def)
  also have "\<dots> = of_int (2 ^ 53) * pow2 (ulp_exp a)"
    using powi_grid[of "ulp_exp a" "ulp_exp a + 53"] by simp
  finally have "a / pow2 (ulp_exp a) \<le> of_int (2 ^ 53)"
    by (simp add: pos_divide_le_eq)
  then show ?thesis by (rule rne_le)
qed

lemma round_double_is_double:
  assumes "0 \<le> x" "round_double x = Num r"
  shows "is_double r"
proof (cases "x = 0")
  case True
  with assms(2) show ?thesis by (simp add: is_double_def)
next
  case False
  with assms have x: "0 < x" by simp
  from assms(2) have r: "r = nearest x" "\<not> pow2 1024 \<le> nearest x"
    by (simp_all add: round_double_pos[OF x] split: if_splits)
  let ?m = "rne (x / pow2 (ulp_exp x))"
  have m0: "0 \<le> ?m" using x by (intro rne_nonneg) simp
  show ?thesis
  proof (cases "?m = 0")
    case True
    then have "r = 0" by (simp add: r(1) nearest_def)
    then show ?thesis by (simp add: is_double_def)
  next
    case False
    with m0 have m: "0 < ?m" by simp
    have fixed: "nearest (nearest x) = nearest x"
      using nearest_grid[OF m nearest_sig_le[OF x] ulp_exp_ge[of x]]
      by (simp add: nearest_def)
    have pos: "0 < nearest x" using m by (simp add: nearest_def)
    show ?thesis
      unfolding is_double_def r(1) using r(2) by (simp add: round_double_pos[OF pos] fixed)
  qed
qed

lemma is_double_of_int:
  assumes "0 \<le> n" "n \<le> 2 ^ 53"
  shows "is_double (of_int n)"
proof (cases "n = 0")
  case True
  then show ?thesis by (simp add: is_double_def)
next
  case False
  with assms have n: "0 < n" by simp
  have fixed: "nearest (of_int n) = of_int n"
    using nearest_grid[OF n assms(2), of 0] by simp
  have "(of_int n :: rat) \<le> of_int (2 ^ 53)" using assms(2) by (simp only: of_int_le_iff)
  also have "\<dots> < pow2 1024" by (simp add: powi_nat)
  finally have "\<not> pow2 1024 \<le> (of_int n :: rat)" by simp
  then show ?thesis
    unfolding is_double_def using n by (simp add: round_double_pos fixed)
qed

subsection \<open>Adjacency\<close>

lemma init_adjacency_fold:
  "foldl (\<lambda>m n. m(node_id n \<mapsto> [])) m0 ns k =
     (if k \<in> node_id ` set ns then Some [] else m0 k)"
  by (induction ns arbitrary: m0) auto

lemma init_adjacency_apply:
  "init_adjacency ns k = (if k \<in> node_id ` set ns then Some [] else None)"
  by (simp add: init_adjacency_def init_adjacency_fold)

lemma push_edge_Inr:
  assumes "edge_a e \<in> dom m" "edge_b e \<in> dom m"
  shows "\<exists>m'. push_edge m e = Inr m' \<and> dom m' = dom m \<and>
           (\<forall>k l. m k = Some l \<longrightarrow> m' k = Some (l @ out_arcs [e] k))"
  using assms by (auto simp: push_edge_def out_arcs_def Let_def split: option.splits)

lemma out_arcs_Cons: "out_arcs (e # es) k = out_arcs [e] k @ out_arcs es k"
  by (simp add: out_arcs_def)

lemma push_edges_Inr:
  assumes "\<forall>e \<in> set es. edge_a e \<in> dom m \<and> edge_b e \<in> dom m"
  shows "\<exists>m'. push_edges m es = Inr m' \<and> dom m' = dom m \<and>
           (\<forall>k l. m k = Some l \<longrightarrow> m' k = Some (l @ out_arcs es k))"
  using assms
proof (induction es arbitrary: m)
  case Nil
  then show ?case by (simp add: out_arcs_def)
next
  case (Cons e es)
  from Cons.prems have "edge_a e \<in> dom m" "edge_b e \<in> dom m" by auto
  from push_edge_Inr[OF this] obtain m1 where m1: "push_edge m e = Inr m1" "dom m1 = dom m"
    "\<forall>k l. m k = Some l \<longrightarrow> m1 k = Some (l @ out_arcs [e] k)" by blast
  from Cons.prems m1(2) have "\<forall>e \<in> set es. edge_a e \<in> dom m1 \<and> edge_b e \<in> dom m1" by auto
  from Cons.IH[OF this] obtain m2 where m2: "push_edges m1 es = Inr m2" "dom m2 = dom m1"
    "\<forall>k l. m1 k = Some l \<longrightarrow> m2 k = Some (l @ out_arcs es k)" by blast
  show ?case using m1 m2 by (auto simp: out_arcs_Cons[of e es])
qed

lemma push_edge_Inl:
  assumes "edge_a e \<notin> dom m \<or> edge_b e \<notin> dom m"
  shows "push_edge m e = Inl TypeError"
  using assms by (auto simp: push_edge_def Let_def split: option.splits)

lemma dom_init_adjacency: "dom (init_adjacency ns) = node_id ` set ns"
  by (auto simp: init_adjacency_apply dom_def)

lemma build_adjacency_Inr:
  assumes "endpoints_exist g"
  shows "\<exists>adj. build_adjacency g = Inr adj \<and>
           (\<forall>k. adj k = (if k \<in> set (ids g) then Some (out_arcs (edges g) k) else None))"
proof -
  have "\<forall>e \<in> set (edges g). edge_a e \<in> dom (init_adjacency (nodes g)) \<and> edge_b e \<in> dom (init_adjacency (nodes g))"
    using assms by (simp add: endpoints_exist_def dom_init_adjacency ids_def)
  from push_edges_Inr[OF this] obtain adj where adj: "push_edges (init_adjacency (nodes g)) (edges g) = Inr adj"
    "dom adj = dom (init_adjacency (nodes g))"
    "\<forall>k l. init_adjacency (nodes g) k = Some l \<longrightarrow> adj k = Some (l @ out_arcs (edges g) k)" by blast
  have "adj k = (if k \<in> set (ids g) then Some (out_arcs (edges g) k) else None)" for k
  proof (cases "k \<in> set (ids g)")
    case True
    then have "init_adjacency (nodes g) k = Some []" by (simp add: init_adjacency_apply ids_def)
    with adj(3) True show ?thesis by simp
  next
    case False
    then have "k \<notin> dom adj" using adj(2) by (simp add: dom_init_adjacency ids_def)
    with False show ?thesis by auto
  qed
  with adj(1) show ?thesis by (auto simp: build_adjacency_def)
qed

lemma set_out_arcs:
  "set (out_arcs es k) =
     {(v, w). (k, v, w) \<in> set (concat (map (\<lambda>e. [(edge_a e, edge_b e, edge_dist e), (edge_b e, edge_a e, edge_dist e)]) es))}"
  by (induction es) (auto simp: out_arcs_def)

lemma set_out_arcs_arcs: "set (out_arcs (edges g) k) = {(v, w). (k, v, w) \<in> set (arcs g)}"
  by (simp add: set_out_arcs arcs_def)

lemma out_arcs_empty:
  "(\<forall>e \<in> set es. edge_a e \<noteq> k \<and> edge_b e \<noteq> k) \<Longrightarrow> out_arcs es k = []"
  by (induction es) (auto simp: out_arcs_def)

subsection \<open>The order of the numbers\<close>

lemma lt_Infinity_iff: "lt z Infinity \<longleftrightarrow> z = NegInfinity \<or> (\<exists>a. z = Num a)"
  by (cases z) auto

lemma not_lt_NaN [simp]: "\<not> lt z NaN" "\<not> lt NaN z"
  by (cases z; simp)+

lemma lt_trans: "lt x y \<Longrightarrow> lt y z \<Longrightarrow> lt x z"
  by (cases x; cases y; cases z) auto

lemma lt_asym: "lt x y \<Longrightarrow> \<not> lt y x"
  by (cases x; cases y) auto

lemma lt_irrefl: "\<not> lt x x"
  by (cases x) auto

lemma le_refl: "a \<noteq> NaN \<Longrightarrow> le a a"
  by (simp add: le_def lt_irrefl)

lemma le_trans: "le a b \<Longrightarrow> le b c \<Longrightarrow> le a c"
  unfolding le_def by (cases a; cases b; cases c) auto

lemma le_lt_trans: "le a b \<Longrightarrow> lt b c \<Longrightarrow> lt a c"
  unfolding le_def by (cases a; cases b; cases c) auto

lemma lt_le_trans: "lt a b \<Longrightarrow> le b c \<Longrightarrow> lt a c"
  unfolding le_def by (cases a; cases b; cases c) auto

lemma lt_imp_le: "lt a b \<Longrightarrow> le a b"
  unfolding le_def by (cases a; cases b) auto

lemma not_lt_imp_le: "a \<noteq> NaN \<Longrightarrow> b \<noteq> NaN \<Longrightarrow> \<not> lt a b \<Longrightarrow> le b a"
  by (simp add: le_def)

lemma le_not_lt: "le a b \<Longrightarrow> \<not> lt b a"
  by (simp add: le_def)

lemma le_Num [simp]: "le (Num x) (Num y) \<longleftrightarrow> x \<le> y"
  by (auto simp: le_def)

lemma le_Infinity [simp]: "le a Infinity \<longleftrightarrow> a \<noteq> NaN"
  by (cases a) (auto simp: le_def)

lemma le_Num_D: "le a (Num y) \<Longrightarrow> good a \<Longrightarrow> \<exists>x. a = Num x \<and> x \<le> y"
  by (cases a) (auto simp: le_def good_def)

lemma good_not_NaN [simp]: "good a \<Longrightarrow> a \<noteq> NaN"
  by (auto simp: good_def)

lemma good_Num: "good (Num x) \<longleftrightarrow> 0 \<le> x \<and> is_double x"
  by (simp add: good_def)

lemma good_Infinity [simp]: "good Infinity"
  by (simp add: good_def)

lemma good_0 [simp]: "good (Num 0)"
  by (simp add: good_def is_double_def)

lemma get_distance_Some [simp]: "d k = Some v \<Longrightarrow> get_distance d k = v"
  by (simp add: get_distance_def)

lemma get_distance_None [simp]: "d k = None \<Longrightarrow> get_distance d k = NaN"
  by (simp add: get_distance_def)

subsection \<open>Adding a weight\<close>

lemma round_double_not_NaN [simp]: "round_double y \<noteq> NaN"
  by (simp add: round_double_def Let_def)

lemma js_add_Num_not_NaN [simp]: "js_add (Num x) w \<noteq> NaN"
  by simp

lemma round_double_nonneg: "0 \<le> y \<Longrightarrow> round_double y \<noteq> NegInfinity"
  by (simp add: round_double_def Let_def)

lemma good_round_double:
  assumes "0 \<le> y"
  shows "good (round_double y)"
proof (cases "round_double y")
  case (Num r)
  from round_double_mono[OF order_refl assms Num] have "0 \<le> r" by auto
  with round_double_is_double[OF assms Num] Num show ?thesis by (simp add: good_def)
next
  case NegInfinity
  with round_double_nonneg[OF assms] show ?thesis by simp
qed simp_all

lemma good_js_add:
  assumes "good a" "0 \<le> w"
  shows "good (js_add a w)"
proof (cases a)
  case (Num x)
  with assms have "0 \<le> x + w" by (simp add: good_def)
  then show ?thesis unfolding Num by (simp add: good_round_double)
qed (use assms in \<open>auto simp: good_def\<close>)

lemma js_add_increases:
  assumes "good a" "0 \<le> w"
  shows "le a (js_add a w)"
proof (cases a)
  case (Num x)
  with assms have x: "0 \<le> x" "is_double x" by (simp_all add: good_def)
  show ?thesis
  proof (cases "round_double (x + w)")
    case r: (Num r)
    from round_double_mono[OF x(1) _ r] assms(2) obtain a' where "round_double x = Num a'" "a' \<le> r"
      by auto
    with x(2) have "x \<le> r" by (simp add: is_double_def)
    then show ?thesis by (simp add: Num r)
  next
    case NegInfinity
    with round_double_nonneg[of "x + w"] x(1) assms(2) show ?thesis by simp
  qed (simp_all add: Num)
qed (use assms in \<open>auto simp: good_def\<close>)

lemma js_add_mono:
  assumes "good a" "good b" "le a b" "0 \<le> w"
  shows "le (js_add a w) (js_add b w)"
proof (cases b)
  case b: (Num y)
  from le_Num_D[OF assms(3)[unfolded b] assms(1)] obtain x where a: "a = Num x" "x \<le> y" by blast
  from assms(1) a have x: "0 \<le> x" by (simp add: good_def)
  show ?thesis
  proof (cases "round_double (y + w)")
    case r: (Num r)
    from round_double_mono[OF _ _ r, of "x + w"] x a(2) assms(4)
    obtain a' where "round_double (x + w) = Num a'" "a' \<le> r" by auto
    then show ?thesis by (simp add: a b r)
  next
    case NegInfinity
    with round_double_nonneg[of "y + w"] x a(2) assms(4) show ?thesis by simp
  qed (simp_all add: a b)
next
  case Infinity
  with good_js_add[OF assms(1,4)] show ?thesis by simp
qed (use assms in \<open>auto simp: good_def\<close>)

subsection \<open>One relaxation\<close>

lemma relax_Cons: "relax c ((nb, w) # rest) st = relax c rest (relax1 c nb w st)"
  by (simp add: relax1_def Let_def)

text \<open>
  \<open>distances\<close> never owns the key \<open>__proto__\<close>, so the comparison with its distance
  is false and the writes of a round are writes of own properties.
\<close>

lemma lt_get_distance_key:
  assumes "lt a (get_distance d nb)" "d ''__proto__'' = None"
  shows "nb \<noteq> ''__proto__''"
  using assms by (auto simp: get_distance_def)

lemma relax1_plain:
  assumes "distances st ''__proto__'' = None"
  shows "relax1 c nb w st =
     (let alt = js_add (get_distance (distances st) c) w in
      if lt alt (get_distance (distances st) nb)
      then st\<lparr>distances := (distances st)(nb \<mapsto> alt), previous := (previous st)(nb \<mapsto> Some c)\<rparr>
      else st)"
proof (cases "lt (js_add (get_distance (distances st) c) w) (get_distance (distances st) nb)")
  case True
  from lt_get_distance_key[OF True assms] True show ?thesis
    by (simp add: relax1_def Let_def set_distance_def set_previous_def)
next
  case False
  then show ?thesis by (simp add: relax1_def Let_def)
qed

lemma relax1_keeps_key:
  assumes "distances st ''__proto__'' = None"
  shows "distances (relax1 c nb w st) ''__proto__'' = None"
  using assms by (simp add: relax1_def Let_def set_distance_def set_previous_def split: option.splits)

lemma relax_preD: "relax_pre c x st \<Longrightarrow> distances st ''__proto__'' = None"
  by (simp add: relax_pre_def)

lemma relax1_pre:
  assumes "relax_pre c x st" "0 \<le> w"
  shows "relax_pre c x (relax1 c nb w st)"
proof (cases "lt (js_add (Num x) w) (get_distance (distances st) nb)")
  case True
  have "nb \<noteq> c"
  proof
    assume "nb = c"
    with True assms(1) have "lt (js_add (Num x) w) (Num x)" by (simp add: relax_pre_def)
    moreover have "le (Num x) (js_add (Num x) w)"
      using js_add_increases[of "Num x" w] assms by (simp add: relax_pre_def)
    ultimately show False by (simp add: le_def)
  qed
  moreover have "nb \<noteq> ''__proto__''"
    using True assms(1) by (auto simp: relax_pre_def get_distance_def)
  ultimately show ?thesis
    using True assms(1) by (simp add: relax_pre_def relax1_plain Let_def)
next
  case False
  with assms(1) show ?thesis by (simp add: relax_pre_def relax1_plain Let_def)
qed

lemma relax1_to:
  assumes "relax_pre c x st"
  shows "relaxed_to c x [(nb, w)] st (relax1 c nb w st) v"
  using assms relax1_plain[OF relax_preD[OF assms], of c nb w]
  by (auto simp: relax_pre_def Let_def relaxed_to_def)

lemma relax1_done:
  assumes "relax_pre c x st" "distances st nb = Some dv"
  shows "le (get_distance (distances (relax1 c nb w st)) nb) (js_add (Num x) w)"
proof (cases "lt (js_add (Num x) w) dv")
  case True
  then show ?thesis
    using assms by (simp add: relax_pre_def relax1_plain[OF relax_preD[OF assms(1)]] Let_def le_refl)
next
  case False
  from assms have "dv \<noteq> NaN" by (auto simp: relax_pre_def)
  with False have "le dv (js_add (Num x) w)" by (simp add: le_def)
  then show ?thesis
    using assms False by (simp add: relax_pre_def relax1_plain[OF relax_preD[OF assms(1)]] Let_def)
qed

lemma relaxed_to_trans:
  assumes "relaxed_to c x [(nb, w)] st st1 v" "relaxed_to c x rest st1 st' v"
  shows "relaxed_to c x ((nb, w) # rest) st st' v"
proof -
  from assms(2) consider
    (same) "distances st' v = distances st1 v" "previous st' v = previous st1 v"
    | (upd) w' where "(v, w') \<in> set rest" "distances st' v = Some (js_add (Num x) w')"
      "previous st' v = Some (Some c)" "lt (js_add (Num x) w') (get_distance (distances st1) v)"
    by (auto simp: relaxed_to_def)
  then show ?thesis
  proof cases
    case same
    with assms(1) show ?thesis by (auto simp: relaxed_to_def)
  next
    case upd
    from assms(1) have "get_distance (distances st1) v = get_distance (distances st) v \<or>
        lt (get_distance (distances st1) v) (get_distance (distances st) v)"
      by (auto simp: relaxed_to_def get_distance_def)
    with upd(4) have "lt (js_add (Num x) w') (get_distance (distances st) v)"
      by (auto intro: lt_trans)
    with upd show ?thesis by (auto simp: relaxed_to_def)
  qed
qed

lemma relaxed_to_dom:
  assumes "relaxed_to c x nbs st st' v"
  shows "(distances st' v = None) = (distances st v = None)"
  using assms by (auto simp: relaxed_to_def)

lemma relaxed_to_le:
  assumes "relaxed_to c x nbs st st' v" "distances st v = Some z" "z \<noteq> NaN"
  shows "le (get_distance (distances st') v) z"
  using assms by (auto simp: relaxed_to_def le_refl lt_imp_le)

lemma relax_spec:
  assumes "relax_pre c x st" "\<forall>(v, w) \<in> set nbs. 0 \<le> w"
  shows "relax_pre c x (relax c nbs st) \<and>
         (\<forall>v. relaxed_to c x nbs st (relax c nbs st) v) \<and>
         (\<forall>(v, w) \<in> set nbs. distances st v \<noteq> None \<longrightarrow>
            le (get_distance (distances (relax c nbs st)) v) (js_add (Num x) w))"
  using assms
proof (induction nbs arbitrary: st)
  case Nil
  then show ?case by (simp add: relaxed_to_def)
next
  case (Cons e rest)
  obtain nb w where e: "e = (nb, w)" by (cases e)
  let ?st1 = "relax1 c nb w st"
  let ?st' = "relax c rest ?st1"
  from Cons.prems e have w: "0 \<le> w" by simp
  have pre1: "relax_pre c x ?st1" using relax1_pre[OF Cons.prems(1) w] .
  from Cons.prems(2) have rest: "\<forall>(v, w) \<in> set rest. 0 \<le> w" by simp
  note IH = Cons.IH[OF pre1 rest]
  have to: "relaxed_to c x (e # rest) st ?st' v" for v
    unfolding e using relax1_to[OF Cons.prems(1)] IH by (blast intro: relaxed_to_trans)
  have rlx: "le (get_distance (distances ?st') v) (js_add (Num x) wv)"
    if "(v, wv) \<in> set (e # rest)" "distances st v \<noteq> None" for v wv
  proof (cases "(v, wv) \<in> set rest")
    case True
    have "distances ?st1 v \<noteq> None"
      using relaxed_to_dom[OF relax1_to[OF Cons.prems(1), of nb w v]] that(2) by simp
    with IH True show ?thesis by blast
  next
    case False
    with that(1) e have [simp]: "v = nb" "wv = w" by auto
    from that(2) obtain dv where "distances st nb = Some dv" by auto
    note 1 = relax1_done[OF Cons.prems(1) this, of w]
    from relaxed_to_dom[OF relax1_to[OF Cons.prems(1), of nb w nb]] that(2)
    obtain z where z: "distances ?st1 nb = Some z" by auto
    with pre1 have zn: "z \<noteq> NaN" by (auto simp: relax_pre_def)
    from IH have "relaxed_to c x rest ?st1 ?st' nb" by blast
    from relaxed_to_le[OF this z zn] 1 z show ?thesis by (auto intro: le_trans)
  qed
  show ?case unfolding e relax_Cons using IH to rlx unfolding e by blast
qed

subsection \<open>Selection\<close>

lemma find_min_None:
  "find_min d us cur m = None \<Longrightarrow> cur = None \<and> (\<forall>u \<in> set us. \<not> lt (get_distance d u) m)"
  by (induction us arbitrary: cur m) (auto split: if_splits)

lemma find_min_first:
  "find_min d us cur m = Some c \<Longrightarrow>
     (cur = Some c \<and> (\<forall>u \<in> set us. \<not> lt (get_distance d u) m)) \<or>
     (\<exists>pre post. us = pre @ c # post \<and> lt (get_distance d c) m \<and>
        (\<forall>u \<in> set pre. \<not> lt (get_distance d u) (get_distance d c) \<and> get_distance d u \<noteq> get_distance d c) \<and>
        (\<forall>u \<in> set post. \<not> lt (get_distance d u) (get_distance d c)))"
proof (induction us arbitrary: cur m)
  case Nil
  then show ?case by simp
next
  case (Cons n ns)
  show ?case
  proof (cases "lt (get_distance d n) m")
    case True
    with Cons.prems have "find_min d ns (Some n) (get_distance d n) = Some c" by simp
    from Cons.IH[OF this] consider
      (here) "n = c" "\<forall>u \<in> set ns. \<not> lt (get_distance d u) (get_distance d n)"
      | (later) pre post where "ns = pre @ c # post" "lt (get_distance d c) (get_distance d n)"
        "\<forall>u \<in> set pre. \<not> lt (get_distance d u) (get_distance d c) \<and> get_distance d u \<noteq> get_distance d c"
        "\<forall>u \<in> set post. \<not> lt (get_distance d u) (get_distance d c)"
      by auto
    then show ?thesis
    proof cases
      case here
      then have "n # ns = [] @ c # ns" by simp
      with here True show ?thesis by (metis empty_iff list.set(1))
    next
      case later
      have "n # ns = (n # pre) @ c # post" using later(1) by simp
      moreover have "lt (get_distance d c) m" using later(2) True by (rule lt_trans)
      moreover have "\<forall>u \<in> set (n # pre). \<not> lt (get_distance d u) (get_distance d c) \<and> get_distance d u \<noteq> get_distance d c"
        using later(2,3) lt_asym lt_irrefl by auto
      ultimately show ?thesis using later(4) by blast
    qed
  next
    case False
    with Cons.prems have "find_min d ns cur m = Some c" by simp
    from Cons.IH[OF this] consider
      (kept) "cur = Some c" "\<forall>u \<in> set ns. \<not> lt (get_distance d u) m"
      | (later) pre post where "ns = pre @ c # post" "lt (get_distance d c) m"
        "\<forall>u \<in> set pre. \<not> lt (get_distance d u) (get_distance d c) \<and> get_distance d u \<noteq> get_distance d c"
        "\<forall>u \<in> set post. \<not> lt (get_distance d u) (get_distance d c)"
      by auto
    then show ?thesis
    proof cases
      case kept
      with False show ?thesis by simp
    next
      case later
      have "n # ns = (n # pre) @ c # post" using later(1) by simp
      moreover have "\<not> lt (get_distance d n) (get_distance d c)"
        using False later(2) lt_trans by blast
      moreover have "get_distance d n \<noteq> get_distance d c"
        using False later(2) by auto
      ultimately show ?thesis using later(2,3,4) 
        by (metis set_ConsD)
    qed
  qed
qed

subsection \<open>Walks\<close>

lemma is_walk_append:
  "is_walk g s (q1 @ q2) t \<longleftrightarrow> (\<exists>m. is_walk g s q1 m \<and> is_walk g m q2 t)"
  by (induction q1 arbitrary: s) auto

lemma is_walk_snoc:
  "is_walk g s (q @ [(z, v, w)]) t \<longleftrightarrow> is_walk g s q z \<and> (z, v, w) \<in> set (arcs g) \<and> v = t"
  by (auto simp: is_walk_append)

lemma walk_weight_Nil [simp]: "walk_weight [] = 0"
  by (simp add: walk_weight_def)

lemma walk_weight_Cons [simp]: "walk_weight ((u, v, w) # q) = w + walk_weight q"
  by (simp add: walk_weight_def)

lemma walk_weight_append [simp]: "walk_weight (q1 @ q2) = walk_weight q1 + walk_weight q2"
  by (simp add: walk_weight_def)

lemma arcs_valid:
  assumes "valid_graph g" "(u, v, w) \<in> set (arcs g)"
  shows "u \<in> set (ids g)" "v \<in> set (ids g)" "0 < w"
  using assms by (auto simp: valid_graph_def endpoints_exist_def arcs_def)

lemma arcs_endpoints:
  assumes "endpoints_exist g" "(u, v, w) \<in> set (arcs g)"
  shows "u \<in> set (ids g)" "v \<in> set (ids g)"
  using assms by (auto simp: endpoints_exist_def arcs_def)

lemma is_walk_end:
  "is_walk g s q t \<Longrightarrow> endpoints_exist g \<Longrightarrow> s \<in> set (ids g) \<Longrightarrow> t \<in> set (ids g)"
proof (induction q arbitrary: s)
  case Nil
  then show ?case by simp
next
  case (Cons e q)
  obtain u v w where e: "e = (u, v, w)" by (cases e)
  with Cons.prems have "(u, v, w) \<in> set (arcs g)" "is_walk g v q t" by auto
  with Cons.IH[of v] Cons.prems(2) arcs_endpoints(2)[of g u v w] show ?case by simp
qed

lemma walk_weight_nonneg:
  "is_walk g s q t \<Longrightarrow> valid_graph g \<Longrightarrow> 0 \<le> walk_weight q"
proof (induction q arbitrary: s)
  case Nil
  then show ?case by simp
next
  case (Cons e q)
  obtain u v w where e: "e = (u, v, w)" by (cases e)
  with Cons.prems have "(u, v, w) \<in> set (arcs g)" "is_walk g v q t" by auto
  with Cons.IH[of v] Cons.prems(2) arcs_valid(3)[of g u v w] show ?case
    unfolding e by simp
qed

lemma walk_acc_Nil [simp]: "walk_acc [] = Num 0"
  by (simp add: walk_acc_def)

lemma walk_acc_snoc [simp]: "walk_acc (q @ [(u, v, w)]) = js_add (walk_acc q) w"
  by (simp add: walk_acc_def)

lemma good_walk_acc:
  "is_walk g s q t \<Longrightarrow> valid_graph g \<Longrightarrow> good (walk_acc q)"
proof (induction q arbitrary: t rule: rev_induct)
  case Nil
  then show ?case by simp
next
  case (snoc e q)
  obtain z v w where e: "e = (z, v, w)" by (cases e)
  from snoc.prems(1) have walk: "is_walk g s q z" and arc: "(z, v, w) \<in> set (arcs g)"
    unfolding e by (auto simp: is_walk_snoc)
  from snoc.IH[OF walk snoc.prems(2)] arcs_valid(3)[OF snoc.prems(2) arc]
  show ?case unfolding e by (simp add: good_js_add)
qed

lemma arcs_sym: "(u, v, w) \<in> set (arcs g) \<Longrightarrow> (v, u, w) \<in> set (arcs g)"
  by (auto simp: arcs_def)

subsection \<open>The first state\<close>

lemma init_node_simps:
  "distances (init_node st n) k =
     (if k = node_id n \<and> k \<noteq> ''__proto__'' then Some Infinity else distances st k)"
  "k \<noteq> ''__proto__'' \<Longrightarrow>
     previous (init_node st n) k = (if k = node_id n then Some None else previous st k)"
  "unvisited (init_node st n) = set_add (unvisited st) (node_id n)"
  by (auto simp: init_node_def Let_def set_distance_def set_previous_def)

lemma foldl_init_node:
  "distances (foldl init_node st ns) k =
     (if k \<in> node_id ` set ns \<and> k \<noteq> ''__proto__'' then Some Infinity else distances st k)"
  "k \<noteq> ''__proto__'' \<Longrightarrow>
     previous (foldl init_node st ns) k = (if k \<in> node_id ` set ns then Some None else previous st k)"
  "set (unvisited (foldl init_node st ns)) = set (unvisited st) \<union> node_id ` set ns"
  "distinct (unvisited st) \<Longrightarrow> distinct (unvisited (foldl init_node st ns))"
  by (induction ns arbitrary: st) (auto simp: init_node_simps set_add_def)

lemma init_state_simps:
  "distances (init_state g s) k =
     (if k = ''__proto__'' then None else if k = s then Some (Num 0)
      else if k \<in> set (ids g) then Some Infinity else None)"
  "k \<noteq> ''__proto__'' \<Longrightarrow> previous (init_state g s) k = (if k \<in> set (ids g) then Some None else None)"
  "set (unvisited (init_state g s)) = set (ids g)"
  "distinct (unvisited (init_state g s))"
  by (simp_all add: init_state_def set_distance_def foldl_init_node ids_def)

subsection \<open>The invariant of the while loop\<close>

lemma inv_monoD:
  "inv_mono g st \<Longrightarrow> v \<in> visited g st \<Longrightarrow> u \<in> set (unvisited st) \<Longrightarrow>
   le (get_distance (distances st) v) (get_distance (distances st) u)"
  unfolding inv_mono_def by blast

lemma inv_lowerD:
  "inv_lower g s st \<Longrightarrow> v \<in> visited g st \<Longrightarrow> is_walk g s q v \<Longrightarrow>
   le (get_distance (distances st) v) (walk_acc q)"
  unfolding inv_lower_def by blast

lemma inv_relaxedD:
  "inv_relaxed g st \<Longrightarrow> v \<in> visited g st \<Longrightarrow> (v, u, w) \<in> set (arcs g) \<Longrightarrow>
   le (get_distance (distances st) u) (js_add (get_distance (distances st) v) w)"
  unfolding inv_relaxed_def by blast

lemma inv_chainD:
  "inv_chain g s st \<Longrightarrow> distances st v = Some (Num x) \<Longrightarrow>
   \<exists>q. is_walk g s q v \<and> walk_acc q = Num x \<and>
      chain_links (previous st) (walk_nodes s q) \<and> set (butlast (walk_nodes s q)) \<subseteq> visited g st"
  unfolding inv_chain_def by blast

lemma inv_shapeD:
  assumes "inv_shape g s st"
  shows "set (unvisited st) \<subseteq> set (ids g)" "distinct (unvisited st)"
    "v \<in> set (ids g) \<Longrightarrow> \<exists>z. distances st v = Some z \<and> good z"
    "distances st v \<noteq> Some NaN"
    "distances st s = Some (Num 0)" "previous st s = Some None"
    "v \<in> visited g st \<Longrightarrow> \<exists>x. distances st v = Some (Num x)"
    "distances st ''__proto__'' = None"
  using assms unfolding inv_shape_def by blast+

lemma inv_shape_good:
  assumes "inv_shape g s st" "v \<in> set (ids g)"
  shows "good (get_distance (distances st) v)"
  using inv_shapeD(3)[OF assms] by auto

lemma walk_nodes_Nil [simp]: "walk_nodes s [] = [s]"
  by (simp add: walk_nodes_def)

lemma walk_nodes_snoc: "walk_nodes s (q @ [(u, v, w)]) = walk_nodes s q @ [v]"
  by (simp add: walk_nodes_def)

lemma walk_nodes_ne [simp]: "walk_nodes s q \<noteq> []"
  by (simp add: walk_nodes_def)

lemma init_inv:
  assumes "s \<in> set (ids g)" "''__proto__'' \<notin> set (ids g)"
  shows "dijkstra_inv g s (init_state g s)"
proof -
  have vis: "visited g (init_state g s) = {}"
    by (simp add: visited_def init_state_simps)
  from assms have s: "s \<noteq> ''__proto__''" by auto
  have "inv_shape g s (init_state g s)"
    using assms s by (auto simp: inv_shape_def init_state_simps vis)
  moreover have "inv_chain g s (init_state g s)"
    unfolding inv_chain_def
  proof (intro allI impI)
    fix v x assume "distances (init_state g s) v = Some (Num x)"
    then have "v = s" "x = 0" by (auto simp: init_state_simps split: if_splits)
    then show "\<exists>q. is_walk g s q v \<and> walk_acc q = Num x \<and>
        chain_links (previous (init_state g s)) (walk_nodes s q) \<and>
        set (butlast (walk_nodes s q)) \<subseteq> visited g (init_state g s)"
      by (intro exI[of _ "[]"]) simp
  qed
  ultimately show ?thesis
    by (simp add: dijkstra_inv_def inv_mono_def inv_lower_def inv_relaxed_def vis)
qed

text \<open>The selected waypoint is no farther than any walk to an unvisited waypoint.\<close>

lemma selected_lower:
  assumes valid: "valid_graph g" and s: "s \<in> set (ids g)"
    and shape: "inv_shape g s st" and lower: "inv_lower g s st" and relaxed: "inv_relaxed g st"
    and least: "\<forall>u \<in> set (unvisited st). le (Num x) (get_distance (distances st) u)"
  shows "is_walk g s q v \<Longrightarrow> v \<in> set (unvisited st) \<Longrightarrow> le (Num x) (walk_acc q)"
proof (induction q arbitrary: v rule: rev_induct)
  case Nil
  then have "v = s" by simp
  with Nil.prems(2) least inv_shapeD(5)[OF shape] show ?case by auto
next
  case (snoc e q)
  obtain z v' w where e: "e = (z, v', w)" by (cases e)
  from snoc.prems(1) have walk: "is_walk g s q z" and arc: "(z, v, w) \<in> set (arcs g)"
    unfolding e by (auto simp: is_walk_snoc)
  have w: "0 \<le> w" using arcs_valid(3)[OF valid arc] by simp
  have acc: "walk_acc (q @ [e]) = js_add (walk_acc q) w" unfolding e by simp
  have zV: "z \<in> set (ids g)" using arcs_valid(1)[OF valid arc] .
  have gq: "good (walk_acc q)" using good_walk_acc[OF walk valid] .
  show ?case
  proof (cases "z \<in> set (unvisited st)")
    case True
    from snoc.IH[OF walk True] js_add_increases[OF gq w] show ?thesis
      unfolding acc by (rule le_trans)
  next
    case False
    with zV have zvis: "z \<in> visited g st" by (simp add: visited_def)
    let ?dz = "get_distance (distances st) z"
    have 1: "le (Num x) (get_distance (distances st) v)" using least snoc.prems(2) by blast
    have 2: "le (get_distance (distances st) v) (js_add ?dz w)"
      using inv_relaxedD[OF relaxed zvis arc] .
    have 3: "le (js_add ?dz w) (js_add (walk_acc q) w)"
      using js_add_mono[OF inv_shape_good[OF shape zV] gq inv_lowerD[OF lower zvis walk] w] .
    from 1 2 3 show ?thesis unfolding acc by (blast intro: le_trans)
  qed
qed

lemma chain_links_snoc:
  "ns \<noteq> [] \<Longrightarrow> chain_links p (ns @ [v]) = (chain_links p ns \<and> p v = Some (Some (last ns)))"
  by (induction p ns rule: chain_links.induct) auto

lemma chain_links_cong:
  "\<forall>n \<in> set ns. p' n = p n \<Longrightarrow> chain_links p' ns = chain_links p ns"
  by (induction p ns rule: chain_links.induct) auto

lemma hd_walk_nodes [simp]: "hd (walk_nodes s q) = s"
  by (simp add: walk_nodes_def)

lemma last_walk_nodes: "is_walk g s q t \<Longrightarrow> last (walk_nodes s q) = t"
proof (induction q rule: rev_induct)
  case Nil
  then show ?case by simp
next
  case (snoc e q)
  obtain z v w where e: "e = (z, v, w)" by (cases e)
  from snoc.prems show ?case unfolding e by (simp add: is_walk_snoc walk_nodes_snoc)
qed

lemma set_walk_nodes:
  "is_walk g s q t \<Longrightarrow> set (walk_nodes s q) = insert t (set (butlast (walk_nodes s q)))"
proof -
  assume "is_walk g s q t"
  from last_walk_nodes[OF this] have "walk_nodes s q = butlast (walk_nodes s q) @ [t]"
    using append_butlast_last_id[of "walk_nodes s q"] by simp
  then have "set (walk_nodes s q) = set (butlast (walk_nodes s q) @ [t])" by simp
  then show ?thesis by simp
qed

lemma step_inv:
  assumes valid: "valid_graph g" and s: "s \<in> set (ids g)" and adj: "adjacency_of g adj"
    and inv: "dijkstra_inv g s st" and step: "step adj st = Some st'"
  shows "dijkstra_inv g s st'"
proof -
  from inv have shape: "inv_shape g s st" and mono: "inv_mono g st" and lower: "inv_lower g s st"
    and relaxed: "inv_relaxed g st" and chain: "inv_chain g s st"
    by (simp_all add: dijkstra_inv_def)
  define st1 where "st1 = st\<lparr>unvisited := removeAll (the (find_min (distances st) (unvisited st) None Infinity)) (unvisited st)\<rparr>"
  from step obtain c where c: "find_min (distances st) (unvisited st) None Infinity = Some c"
    and st': "st' = (case adj c of None \<Rightarrow> st1 | Some nbs \<Rightarrow> relax c nbs st1)"
    by (auto simp: step_def Let_def st1_def split: option.splits if_splits)
  have d1: "distances st1 = distances st" and p1: "previous st1 = previous st"
    and u1: "unvisited st1 = removeAll c (unvisited st)"
    by (simp_all add: st1_def c)
  let ?gd = "get_distance (distances st)"
  let ?gd' = "get_distance (distances st')"
  from find_min_first[OF c] obtain pre post where
    U: "unvisited st = pre @ c # post" and fin: "lt (?gd c) Infinity"
    and pre: "\<forall>u \<in> set pre. \<not> lt (?gd u) (?gd c)"
    and post: "\<forall>u \<in> set post. \<not> lt (?gd u) (?gd c)"
    by auto
  have cU: "c \<in> set (unvisited st)" using U by simp
  have cV: "c \<in> set (ids g)" using cU inv_shapeD(1)[OF shape] by blast
  have gc: "good (?gd c)" using inv_shape_good[OF shape cV] .
  with fin obtain x where gx: "?gd c = Num x" by (auto simp: good_def)
  then have x: "distances st c = Some (Num x)" by (auto simp: get_distance_def split: option.splits)
  have goodx: "good (Num x)" using gc gx by simp
  have least: "\<forall>u \<in> set (unvisited st). le (Num x) (?gd u)"
  proof
    fix u assume u: "u \<in> set (unvisited st)"
    then have "u \<in> set (ids g)" using inv_shapeD(1)[OF shape] by blast
    then have gu: "good (?gd u)" by (rule inv_shape_good[OF shape])
    show "le (Num x) (?gd u)"
    proof (cases "u = c")
      case True
      then show ?thesis by (simp add: gx)
    next
      case False
      with u U have "u \<in> set pre \<or> u \<in> set post" by auto
      with pre post have "\<not> lt (?gd u) (Num x)" unfolding gx by blast
      with gu show ?thesis by (simp add: le_def)
    qed
  qed
  define nbs where "nbs = out_arcs (edges g) c"
  have adjc: "adj c = Some nbs" using adj cV by (simp add: adjacency_of_def nbs_def)
  have nbs: "(v, w) \<in> set nbs \<longleftrightarrow> (c, v, w) \<in> set (arcs g)" for v w
    by (simp add: nbs_def set_out_arcs_arcs)
  have st'_eq: "st' = relax c nbs st1" using st' adjc by simp
  have pre1: "relax_pre c x st1"
    using x goodx inv_shapeD(4)[OF shape] inv_shapeD(8)[OF shape] by (simp add: relax_pre_def d1)
  have wpos: "\<forall>(v, w) \<in> set nbs. 0 \<le> w"
    using arcs_valid(3)[OF valid] by (auto simp: nbs less_imp_le)
  from relax_spec[OF pre1 wpos] have
    P1: "relax_pre c x st'" and P2: "\<And>v. relaxed_to c x nbs st1 st' v"
    and P3: "\<And>v w. (v, w) \<in> set nbs \<Longrightarrow> distances st1 v \<noteq> None \<Longrightarrow>
               le (?gd' v) (js_add (Num x) w)"
    unfolding st'_eq by blast+
  have U': "unvisited st' = removeAll c (unvisited st)" by (simp add: st'_eq u1)
  have vis': "visited g st' = insert c (visited g st)"
    using cV by (auto simp: visited_def U')
  have K_c: "distances st' c = Some (Num x)" using P1 by (simp add: relax_pre_def)
  have K_nan: "distances st' v \<noteq> Some NaN" for v using P1 by (simp add: relax_pre_def)
  have K_cases: "(distances st' v = distances st v \<and> previous st' v = previous st v) \<or>
      (\<exists>w. (c, v, w) \<in> set (arcs g) \<and> distances st' v = Some (js_add (Num x) w) \<and>
         previous st' v = Some (Some c) \<and> lt (js_add (Num x) w) (?gd v))" for v
    using P2[of v] by (auto simp: relaxed_to_def d1 p1 nbs)
  have alt_ge: "le (Num x) (js_add (Num x) w)" if "(c, v, w) \<in> set (arcs g)" for v w
    using js_add_increases[OF goodx] arcs_valid(3)[OF valid that] by simp
  have alt_good: "good (js_add (Num x) w)" if "(c, v, w) \<in> set (arcs g)" for v w
    using good_js_add[OF goodx] arcs_valid(3)[OF valid that] by simp
  have K_small: "distances st' v = distances st v \<and> previous st' v = previous st v"
    if "le (?gd v) (Num x)" for v
  proof -
    have "\<not> lt (js_add (Num x) w) (?gd v)" if arc: "(c, v, w) \<in> set (arcs g)" for w
    proof
      assume "lt (js_add (Num x) w) (?gd v)"
      from lt_le_trans[OF lt_le_trans[OF this \<open>le (?gd v) (Num x)\<close>] alt_ge[OF arc]]
      show False by (simp add: lt_irrefl)
    qed
    with K_cases[of v] show ?thesis by blast
  qed
  have K_vis: "distances st' v = distances st v \<and> previous st' v = previous st v"
    if "v \<in> visited g st" for v
    using K_small inv_monoD[OF mono that cU] by (simp add: gx)
  have K_self: "previous st' c = previous st c"
    using K_small[of c] by (simp add: gx)
  have K_s: "distances st' s = Some (Num 0)" "previous st' s = Some None"
  proof -
    have "le (?gd s) (Num x)" using inv_shapeD(5)[OF shape] goodx by (simp add: good_def)
    from K_small[OF this] inv_shapeD(5,6)[OF shape]
    show "distances st' s = Some (Num 0)" "previous st' s = Some None" by simp_all
  qed
  have K_le: "le (?gd' v) (?gd v)" if "v \<in> set (ids g)" for v
  proof -
    from inv_shapeD(3)[OF shape that] obtain z where z: "distances st v = Some z" "good z" by blast
    from relaxed_to_le[OF P2[of v], of z] z show ?thesis by (simp add: d1)
  qed
  have K_good: "\<exists>z. distances st' v = Some z \<and> good z" if "v \<in> set (ids g)" for v
    using K_cases[of v] inv_shapeD(3)[OF shape that] alt_good by auto

  have shape': "inv_shape g s st'"
    unfolding inv_shape_def
  proof (intro conjI ballI allI)
    show "set (unvisited st') \<subseteq> set (ids g)" using inv_shapeD(1)[OF shape] by (auto simp: U')
    show "distinct (unvisited st')" using inv_shapeD(2)[OF shape] by (simp add: U' distinct_removeAll)
    show "\<exists>z. distances st' v = Some z \<and> good z" if "v \<in> set (ids g)" for v using K_good[OF that] .
    show "distances st' v \<noteq> Some NaN" for v by (rule K_nan)
    show "distances st' s = Some (Num 0)" "previous st' s = Some None" by (rule K_s)+
    show "\<exists>y. distances st' v = Some (Num y)" if "v \<in> visited g st'" for v
    proof (cases "v = c")
      case True
      with K_c show ?thesis by simp
    next
      case False
      with that vis' have v: "v \<in> visited g st" by simp
      with K_vis[OF v] inv_shapeD(7)[OF shape v] show ?thesis by simp
    qed
    show "distances st' ''__proto__'' = None" using P1 by (simp add: relax_pre_def)
  qed

  have vis_le: "le (?gd' v) (Num x)" if "v \<in> visited g st'" for v
  proof (cases "v = c")
    case True
    with K_c show ?thesis by simp
  next
    case False
    with that vis' have v: "v \<in> visited g st" by simp
    with K_vis[OF v] have "?gd' v = ?gd v" by (simp add: get_distance_def)
    with inv_monoD[OF mono v cU] show ?thesis by (simp add: gx)
  qed

  have mono': "inv_mono g st'"
    unfolding inv_mono_def
  proof (intro ballI)
    fix v u
    assume v: "v \<in> visited g st'" and u: "u \<in> set (unvisited st')"
    from u have uU: "u \<in> set (unvisited st)" by (simp add: U')
    from K_cases[of u] consider (same) "distances st' u = distances st u"
      | (upd) w where "(c, u, w) \<in> set (arcs g)" "distances st' u = Some (js_add (Num x) w)" by auto
    then have "le (Num x) (?gd' u)"
    proof cases
      case same
      then have "?gd' u = ?gd u" by (simp add: get_distance_def)
      with least uU show ?thesis by simp
    next
      case upd
      with alt_ge[OF upd(1)] show ?thesis by simp
    qed
    with vis_le[OF v] show "le (?gd' v) (?gd' u)" by (rule le_trans)
  qed

  have lower': "inv_lower g s st'"
    unfolding inv_lower_def
  proof (intro ballI allI impI)
    fix v q
    assume v: "v \<in> visited g st'" and q: "is_walk g s q v"
    show "le (?gd' v) (walk_acc q)"
    proof (cases "v = c")
      case True
      have "le (Num x) (walk_acc q)"
        using selected_lower[OF valid s shape lower relaxed least q[unfolded True] cU] .
      with K_c True show ?thesis by simp
    next
      case False
      with v vis' have v': "v \<in> visited g st" by simp
      with K_vis[OF v'] have "?gd' v = ?gd v" by (simp add: get_distance_def)
      with inv_lowerD[OF lower v' q] show ?thesis by simp
    qed
  qed

  have relaxed': "inv_relaxed g st'"
    unfolding inv_relaxed_def
  proof (intro ballI allI impI)
    fix v u w
    assume v: "v \<in> visited g st'" and arc: "(v, u, w) \<in> set (arcs g)"
    have uV: "u \<in> set (ids g)" using arcs_valid(2)[OF valid arc] .
    show "le (?gd' u) (js_add (?gd' v) w)"
    proof (cases "v = c")
      case True
      have "(u, w) \<in> set nbs" using arc True by (simp add: nbs)
      moreover have "distances st1 u \<noteq> None"
        using inv_shapeD(3)[OF shape uV] by (auto simp: d1)
      ultimately have "le (?gd' u) (js_add (Num x) w)" by (rule P3)
      with K_c True show ?thesis by simp
    next
      case False
      with v vis' have v': "v \<in> visited g st" by simp
      with K_vis[OF v'] have "?gd' v = ?gd v" by (simp add: get_distance_def)
      with le_trans[OF K_le[OF uV] inv_relaxedD[OF relaxed v' arc]] show ?thesis by simp
    qed
  qed

  have chain': "inv_chain g s st'"
    unfolding inv_chain_def
  proof (intro allI impI)
    fix v y
    assume y: "distances st' v = Some (Num y)"
    from K_cases[of v] y consider
      (same) "distances st v = Some (Num y)" "previous st' v = previous st v"
      | (upd) w where "(c, v, w) \<in> set (arcs g)" "js_add (Num x) w = Num y"
          "previous st' v = Some (Some c)"
      by auto
    then show "\<exists>q. is_walk g s q v \<and> walk_acc q = Num y \<and>
        chain_links (previous st') (walk_nodes s q) \<and> set (butlast (walk_nodes s q)) \<subseteq> visited g st'"
    proof cases
      case same
      from inv_chainD[OF chain same(1)] obtain q where
        q: "is_walk g s q v" "walk_acc q = Num y" "chain_links (previous st) (walk_nodes s q)"
          "set (butlast (walk_nodes s q)) \<subseteq> visited g st" by blast
      have "\<forall>n \<in> set (walk_nodes s q). previous st' n = previous st n"
        unfolding set_walk_nodes[OF q(1)] using q(4) K_vis same(2) by auto
      from chain_links_cong[OF this] q(3) have "chain_links (previous st') (walk_nodes s q)" by simp
      with q vis' show ?thesis by blast
    next
      case upd
      from inv_chainD[OF chain x] obtain q where
        q: "is_walk g s q c" "walk_acc q = Num x" "chain_links (previous st) (walk_nodes s q)"
          "set (butlast (walk_nodes s q)) \<subseteq> visited g st" by blast
      have same: "\<forall>n \<in> set (walk_nodes s q). previous st' n = previous st n"
        unfolding set_walk_nodes[OF q(1)] using q(4) K_vis K_self by auto
      from chain_links_cong[OF this] q(3) have cl: "chain_links (previous st') (walk_nodes s q)" by simp
      let ?q = "q @ [(c, v, w)]"
      have "is_walk g s ?q v" using q(1) upd(1) by (simp add: is_walk_snoc)
      moreover have "walk_acc ?q = Num y" using q(2) upd(2) by simp
      moreover have "chain_links (previous st') (walk_nodes s ?q)"
        using cl upd(3) last_walk_nodes[OF q(1)]
        by (simp add: walk_nodes_snoc chain_links_snoc)
      moreover have "set (butlast (walk_nodes s ?q)) \<subseteq> visited g st'"
        using q(4) vis' set_walk_nodes[OF q(1)] by (auto simp: walk_nodes_snoc)
      ultimately show ?thesis by blast
    qed
  qed

  from shape' mono' lower' relaxed' chain' show ?thesis by (simp add: dijkstra_inv_def)
qed

subsection \<open>When the loop is left\<close>

lemma step_None_exhausted:
  assumes "inv_shape g s st" "step adj st = None"
  shows "exhausted st"
proof -
  from assms(2) consider (none) "find_min (distances st) (unvisited st) None Infinity = None"
    | (inf) c where "find_min (distances st) (unvisited st) None Infinity = Some c"
      "get_distance (distances st) c = Infinity"
    by (auto simp: step_def Let_def split: option.splits if_splits)
  then show ?thesis
  proof cases
    case none
    from find_min_None[OF this] have nlt: "\<forall>u \<in> set (unvisited st). \<not> lt (get_distance (distances st) u) Infinity"
      by simp
    show ?thesis unfolding exhausted_def
    proof
      fix u assume u: "u \<in> set (unvisited st)"
      with inv_shapeD(1)[OF assms(1)] have "u \<in> set (ids g)" by blast
      from inv_shapeD(3)[OF assms(1) this] obtain z where z: "distances st u = Some z" "good z" by blast
      moreover from nlt u z have "\<not> lt z Infinity" by auto
      ultimately have "z = Infinity" by (auto simp: good_def)
      with z show "distances st u = Some Infinity" by simp
    qed
  next
    case inf
    from find_min_first[OF inf(1)] have "lt (get_distance (distances st) c) Infinity" by auto
    with inf(2) show ?thesis by simp
  qed
qed

lemma main_loop_inv:
  assumes valid: "valid_graph g" and s: "s \<in> set (ids g)"
  shows "adjacency_of g adj \<Longrightarrow> dijkstra_inv g s st \<Longrightarrow>
         dijkstra_inv g s (main_loop adj st) \<and> exhausted (main_loop adj st)"
proof (induction adj st rule: main_loop.induct)
  case (1 adj st)
  note adj = "1.prems"(1) and inv = "1.prems"(2)
  show ?case
  proof (cases "unvisited st = []")
    case True
    then have "main_loop adj st = st" by (simp add: main_loop.simps)
    with inv True show ?thesis by (simp add: exhausted_def)
  next
    case False
    show ?thesis
    proof (cases "step adj st")
      case None
      with False have "main_loop adj st = st" by (simp add: main_loop.simps)
      moreover from inv have "inv_shape g s st" by (simp add: dijkstra_inv_def)
      ultimately show ?thesis using inv step_None_exhausted[OF _ None] by simp
    next
      case (Some st')
      with False have eq: "main_loop adj st = main_loop adj st'" by (simp add: main_loop.simps)
      have "dijkstra_inv g s st'" using step_inv[OF valid s adj inv Some] .
      from "1.IH"[OF False Some adj this] show ?thesis unfolding eq .
    qed
  qed
qed

text \<open>When the loop is left, a walk whose sum did not overflow ends at a visited waypoint.\<close>

lemma exhausted_reach:
  assumes valid: "valid_graph g" and s: "s \<in> set (ids g)"
    and inv: "dijkstra_inv g s st" and ex: "exhausted st"
  shows "is_walk g s q v \<Longrightarrow> walk_acc q = Num y \<Longrightarrow> v \<in> visited g st"
proof (induction q arbitrary: v y rule: rev_induct)
  case Nil
  then have [simp]: "v = s" by simp
  from inv have shape: "inv_shape g s st" by (simp add: dijkstra_inv_def)
  from inv_shapeD(5)[OF shape] ex have "s \<notin> set (unvisited st)" by (auto simp: exhausted_def)
  with s show ?case by (simp add: visited_def)
next
  case (snoc e q)
  obtain z v' w where e: "e = (z, v', w)" by (cases e)
  from snoc.prems(1) have walk: "is_walk g s q z" and arc: "(z, v, w) \<in> set (arcs g)"
    unfolding e by (auto simp: is_walk_snoc)
  from inv have shape: "inv_shape g s st" and relaxed: "inv_relaxed g st" and lower: "inv_lower g s st"
    by (simp_all add: dijkstra_inv_def)
  have w: "0 \<le> w" using arcs_valid(3)[OF valid arc] by simp
  from snoc.prems(2) have acc: "js_add (walk_acc q) w = Num y" unfolding e by simp
  then obtain y' where y': "walk_acc q = Num y'" by (cases "walk_acc q") auto
  have z: "z \<in> visited g st" using snoc.IH[OF walk y'] .
  have zV: "z \<in> set (ids g)" and vV: "v \<in> set (ids g)"
    using arcs_valid(1,2)[OF valid arc] by simp_all
  let ?gd = "get_distance (distances st)"
  have "le (?gd v) (js_add (?gd z) w)" using inv_relaxedD[OF relaxed z arc] .
  also have "le (js_add (?gd z) w) (js_add (walk_acc q) w)"
    using js_add_mono[OF inv_shape_good[OF shape zV] good_walk_acc[OF walk valid]
        inv_lowerD[OF lower z walk] w] .
  finally (le_trans) have "le (?gd v) (Num y)" unfolding acc .
  from le_Num_D[OF this inv_shape_good[OF shape vV]] obtain a where "?gd v = Num a" by blast
  then have "distances st v \<noteq> Some Infinity" by auto
  with ex have "v \<notin> set (unvisited st)" by (auto simp: exhausted_def)
  with vV show ?case by (simp add: visited_def)
qed

subsection \<open>The path back\<close>

lemma reconstruct_Null [simp]: "reconstruct inh p Null acc = Some acc"
  by (subst reconstruct.simps) simp

lemma reconstruct_Str:
  "reconstruct inh p (Str v) acc = reconstruct inh p (get_previous inh p v) (Str v # acc)"
  by (subst reconstruct.simps) simp

lemma reconstruct_chain:
  "ns \<noteq> [] \<Longrightarrow> p (hd ns) = Some None \<Longrightarrow> chain_links p ns \<Longrightarrow>
   reconstruct inh p (Str (last ns)) acc = Some (map Str ns @ acc)"
proof (induction ns arbitrary: acc rule: rev_induct)
  case Nil
  then show ?case by simp
next
  case (snoc v ns)
  show ?case
  proof (cases "ns = []")
    case True
    with snoc.prems(2) show ?thesis by (simp add: reconstruct_Str get_previous_def)
  next
    case False
    from snoc.prems(3) False have links: "chain_links p ns" and pv: "p v = Some (Some (last ns))"
      by (simp_all add: chain_links_snoc)
    from snoc.prems(2) False have hd: "p (hd ns) = Some None" by simp
    from snoc.IH[OF False hd links, of "Str v # acc"] pv show ?thesis
      by (simp add: reconstruct_Str get_previous_def)
  qed
qed

lemma reconstruct_walk:
  assumes inv: "dijkstra_inv g s st" and x: "distances st v = Some (Num x)"
  shows "\<exists>q. is_walk g s q v \<and> walk_acc q = Num x \<and>
             (\<forall>inh acc. reconstruct inh (previous st) (Str v) acc = Some (map Str (walk_nodes s q) @ acc))"
proof -
  from inv have shape: "inv_shape g s st" and chain: "inv_chain g s st" by (simp_all add: dijkstra_inv_def)
  from inv_chainD[OF chain x] obtain q where
    q: "is_walk g s q v" "walk_acc q = Num x" "chain_links (previous st) (walk_nodes s q)" by blast
  have "reconstruct inh (previous st) (Str (last (walk_nodes s q))) acc = Some (map Str (walk_nodes s q) @ acc)" for inh acc
    by (rule reconstruct_chain) (simp_all add: q(3) inv_shapeD(6)[OF shape])
  with q(1,2) last_walk_nodes[OF q(1)] show ?thesis by auto
qed

subsection \<open>The steps\<close>

lemma find_node_Some:
  "v \<in> set (ids g) \<Longrightarrow> \<exists>n. find_node g (Str v) = Some n \<and> node_id n = v"
proof -
  assume "v \<in> set (ids g)"
  then have "find (\<lambda>n. node_id n = v) (nodes g) \<noteq> None"
    by (auto simp: ids_def find_None_iff)
  then obtain n where n: "find (\<lambda>n. node_id n = v) (nodes g) = Some n" by blast
  then have "node_id n = v" by (auto simp: find_Some_iff)
  with n show ?thesis by simp
qed

lemma generateSteps_Cons2:
  assumes "find_node g x = Some nx" "find_node g y = Some ny" "generateSteps g (y # rest) = Inr ss"
  shows "\<exists>st. generateSteps g (x # y # rest) = Inr (st # ss)"
  using assms by (simp add: Let_def)

lemma generateSteps_Inr:
  "set vs \<subseteq> set (ids g) \<Longrightarrow> \<exists>ss. generateSteps g (map Str vs) = Inr ss \<and> length ss = length vs - 1"
proof (induction vs)
  case Nil
  then show ?case by simp
next
  case (Cons x xs)
  note prems = Cons.prems and IH = Cons.IH
  show ?case
  proof (cases xs)
    case Nil
    then show ?thesis by simp
  next
    case xs: (Cons y ys)
    from prems xs have "x \<in> set (ids g)" "y \<in> set (ids g)" by auto
    from find_node_Some[OF this(1)] find_node_Some[OF this(2)] obtain nx ny where
      n: "find_node g (Str x) = Some nx" "find_node g (Str y) = Some ny" by blast
    from IH prems obtain ss where
      ss: "generateSteps g (map Str xs) = Inr ss" "length ss = length xs - 1" by auto
    from ss(1) have "generateSteps g (Str y # map Str ys) = Inr ss" by (simp add: xs)
    from generateSteps_Cons2[OF n this] obtain st where
      "generateSteps g (Str x # Str y # map Str ys) = Inr (st # ss)" by blast
    then show ?thesis using ss(2) by (simp add: xs)
  qed
qed

subsection \<open>The result of dijkstra on a valid graph\<close>

lemma walk_nodes_subset:
  "is_walk g s q t \<Longrightarrow> endpoints_exist g \<Longrightarrow> s \<in> set (ids g) \<Longrightarrow> set (walk_nodes s q) \<subseteq> set (ids g)"
proof (induction q arbitrary: t rule: rev_induct)
  case Nil
  then show ?case by simp
next
  case (snoc e q)
  obtain z v w where e: "e = (z, v, w)" by (cases e)
  from snoc.prems(1) have walk: "is_walk g s q z" and arc: "(z, v, w) \<in> set (arcs g)"
    unfolding e by (auto simp: is_walk_snoc)
  from snoc.IH[OF walk snoc.prems(2,3)] arcs_endpoints(2)[OF snoc.prems(2) arc]
  show ?case unfolding e by (simp add: walk_nodes_snoc)
qed

lemma length_walk_nodes [simp]: "length (walk_nodes s q) = Suc (length q)"
  by (simp add: walk_nodes_def)

lemma valid_endpoints: "valid_graph g \<Longrightarrow> endpoints_exist g"
  by (simp add: valid_graph_def)

lemma build_adjacency_of:
  assumes "endpoints_exist g"
  shows "\<exists>adj. build_adjacency g = Inr adj \<and> adjacency_of g adj"
  using build_adjacency_Inr[OF assms] unfolding adjacency_of_def by blast

lemma search_inv:
  assumes "valid_graph g" "s \<in> set (ids g)" "adjacency_of g adj" "''__proto__'' \<notin> set (ids g)"
  shows "dijkstra_inv g s (search g adj s)" "exhausted (search g adj s)"
  using main_loop_inv[OF assms(1,2) assms(3) init_inv[OF assms(2,4)]]
  by (simp_all add: search_def)

lemma search_min:
  assumes valid: "valid_graph g" and s: "s \<in> set (ids g)" and adj: "adjacency_of g adj"
    and plain: "''__proto__'' \<notin> set (ids g)"
    and t: "t \<in> set (ids g)" and m: "distances (search g adj s) t = Some (Num m)"
  shows "is_min_walk_acc g s t m"
proof -
  let ?st = "search g adj s"
  note inv = search_inv[OF valid s adj plain]
  from inv(1) have shape: "inv_shape g s ?st" and lower: "inv_lower g s ?st"
    by (simp_all add: dijkstra_inv_def)
  from m inv(2) have "t \<notin> set (unvisited ?st)" by (auto simp: exhausted_def)
  with t have vis: "t \<in> visited g ?st" by (simp add: visited_def)
  from reconstruct_walk[OF inv(1) m] obtain q where "is_walk g s q t" "walk_acc q = Num m"
    by blast
  moreover have "m \<le> y" if "is_walk g s q' t" "walk_acc q' = Num y" for q' y
    using inv_lowerD[OF lower vis that(1)] m that(2) by simp
  ultimately show ?thesis unfolding is_min_walk_acc_def by blast
qed

lemma dijkstra_correct:
  assumes valid: "valid_graph g" and plain: "''__proto__'' \<notin> set (ids g)"
    and s: "s \<in> set (ids g)" and t: "t \<in> set (ids g)"
    and walk: "is_walk g s q0 t" and fin: "walk_acc q0 = Num y0"
  shows "\<exists>r q m. dijkstra g s t = Returns (Some r) \<and> is_walk g s q t \<and>
           path r = map Str (walk_nodes s q) \<and> walk_acc q = Num m \<and> is_min_walk_acc g s t m \<and>
           distance r = Math_round (Num m) \<and> length (steps r) = length q"
proof -
  from build_adjacency_of[OF valid_endpoints[OF valid]] obtain adj where
    adj: "build_adjacency g = Inr adj" "adjacency_of g adj" by blast
  let ?st = "search g adj s"
  note inv = search_inv[OF valid s adj(2) plain]
  from inv(1) have shape: "inv_shape g s ?st" by (simp add: dijkstra_inv_def)
  have vis: "t \<in> visited g ?st" using exhausted_reach[OF valid s inv walk fin] .
  from inv_shapeD(7)[OF shape vis] obtain x where x: "distances ?st t = Some (Num x)" by blast
  from reconstruct_walk[OF inv(1) x] obtain q where
    q: "is_walk g s q t" "walk_acc q = Num x"
       "reconstruct (previous_inherits ?st) (previous ?st) (Str t) [] = Some (map Str (walk_nodes s q))"
    by auto
  have min: "is_min_walk_acc g s t x"
    using search_min[OF valid s adj(2) plain t x] .
  from generateSteps_Inr[OF walk_nodes_subset[OF q(1) valid_endpoints[OF valid] s]] obtain ss where
    ss: "generateSteps g (map Str (walk_nodes s q)) = Inr ss" "length ss = length q" by auto
  let ?r = "\<lparr>path = map Str (walk_nodes s q), distance = Math_round (Num x), steps = ss\<rparr>"
  have "dijkstra g s t = Returns (Some ?r)"
    by (simp add: dijkstra_def adj(1) Let_def x q(3) ss(1))
  with q min ss(2) show ?thesis by (intro exI[of _ ?r] exI[of _ q] exI[of _ x]) simp
qed

subsection \<open>No walk, no route\<close>

lemma reach_invD: "reach_inv g s st \<Longrightarrow> distances st ''__proto__'' = None"
  by (simp add: reach_inv_def)

lemma relax1_reach:
  assumes "reach_inv g s st" "(c, nb, w) \<in> set (arcs g)"
  shows "reach_inv g s (relax1 c nb w st)"
proof (cases "lt (js_add (get_distance (distances st) c) w) (get_distance (distances st) nb)")
  case False
  with assms(1) show ?thesis by (simp add: relax1_plain[OF reach_invD[OF assms(1)]] Let_def)
next
  case True
  let ?z = "get_distance (distances st) c"
  from True have "?z \<noteq> Infinity" "?z \<noteq> NaN" by (auto simp: lt_Infinity_iff)
  then have "distances st c = Some ?z"
    by (auto simp: get_distance_def split: option.splits)
  with assms(1) \<open>?z \<noteq> Infinity\<close> obtain q where q: "is_walk g s q c"
    unfolding reach_inv_def by blast
  have "is_walk g s (q @ [(c, nb, w)]) nb" using q assms(2) by (simp add: is_walk_snoc)
  then have nb: "\<exists>q. is_walk g s q nb" by blast
  have st': "relax1 c nb w st = st\<lparr>distances := (distances st)(nb \<mapsto> js_add ?z w),
      previous := (previous st)(nb \<mapsto> Some c)\<rparr>"
    using True by (simp add: relax1_plain[OF reach_invD[OF assms(1)]] Let_def)
  have key: "nb \<noteq> ''__proto__''" using lt_get_distance_key[OF True reach_invD[OF assms(1)]] .
  show ?thesis unfolding st' using assms(1) nb key by (auto simp: reach_inv_def)
qed

lemma relax_reach:
  "reach_inv g s st \<Longrightarrow> \<forall>(v, w) \<in> set nbs. (c, v, w) \<in> set (arcs g) \<Longrightarrow>
   reach_inv g s (relax c nbs st)"
proof (induction nbs arbitrary: st)
  case Nil
  then show ?case by simp
next
  case (Cons e rest)
  obtain nb w where e: "e = (nb, w)" by (cases e)
  from Cons.prems(2) have arc: "(c, nb, w) \<in> set (arcs g)" and rest: "\<forall>(v, w) \<in> set rest. (c, v, w) \<in> set (arcs g)"
    unfolding e by auto
  from Cons.IH[OF relax1_reach[OF Cons.prems(1) arc] rest] show ?case
    unfolding e relax_Cons .
qed

lemma step_SomeD:
  assumes "step adj st = Some st'"
  shows "\<exists>c. find_min (distances st) (unvisited st) None Infinity = Some c \<and>
           get_distance (distances st) c \<noteq> Infinity \<and>
           st' = (case adj c of None \<Rightarrow> st\<lparr>unvisited := removeAll c (unvisited st)\<rparr>
                  | Some nbs \<Rightarrow> relax c nbs (st\<lparr>unvisited := removeAll c (unvisited st)\<rparr>))"
proof (cases "find_min (distances st) (unvisited st) None Infinity")
  case None
  with assms show ?thesis by (simp add: step_def)
next
  case (Some c)
  with assms show ?thesis by (simp add: step_def Let_def split: if_splits)
qed

lemma step_reach:
  assumes "adjacency_of g adj" "reach_inv g s st" "step adj st = Some st'"
  shows "reach_inv g s st'"
proof -
  from step_SomeD[OF assms(3)] obtain c where
    st': "st' = (case adj c of None \<Rightarrow> st\<lparr>unvisited := removeAll c (unvisited st)\<rparr>
                 | Some nbs \<Rightarrow> relax c nbs (st\<lparr>unvisited := removeAll c (unvisited st)\<rparr>))"
    by blast
  have r1: "reach_inv g s (st\<lparr>unvisited := removeAll c (unvisited st)\<rparr>)"
    using assms(2) by (simp add: reach_inv_def)
  show ?thesis
  proof (cases "adj c")
    case None
    with st' r1 show ?thesis by simp
  next
    case (Some nbs)
    with assms(1) have "nbs = out_arcs (edges g) c"
      by (auto simp: adjacency_of_def split: if_splits)
    then have "\<forall>(v, w) \<in> set nbs. (c, v, w) \<in> set (arcs g)"
      by (simp add: set_out_arcs_arcs)
    from relax_reach[OF r1 this] st' Some show ?thesis by simp
  qed
qed

lemma main_loop_reach:
  "adjacency_of g adj \<Longrightarrow> reach_inv g s st \<Longrightarrow> reach_inv g s (main_loop adj st)"
proof (induction adj st rule: main_loop.induct)
  case (1 adj st)
  show ?case
  proof (cases "unvisited st = [] \<or> step adj st = None")
    case True
    then have "main_loop adj st = st" by (auto simp: main_loop.simps)
    with "1.prems" show ?thesis by simp
  next
    case False
    then obtain st' where st': "step adj st = Some st'" and ne: "unvisited st \<noteq> []" by auto
    then have eq: "main_loop adj st = main_loop adj st'" by (simp add: main_loop.simps)
    from "1.IH"[OF ne st' "1.prems"(1) step_reach[OF "1.prems" st']] show ?thesis unfolding eq .
  qed
qed

lemma init_reach: "reach_inv g s (init_state g s)"
proof -
  have "is_walk g s [] s" by simp
  then have "\<exists>q. is_walk g s q s" by blast
  then show ?thesis by (auto simp: reach_inv_def init_state_simps split: if_splits)
qed

lemma dijkstra_no_walk:
  assumes "endpoints_exist g" "t \<in> set (ids g)" "t \<noteq> ''__proto__''" "\<forall>q. \<not> is_walk g s q t"
  shows "dijkstra g s t = Returns None"
proof -
  from build_adjacency_of[OF assms(1)] obtain adj where
    adj: "build_adjacency g = Inr adj" "adjacency_of g adj" by blast
  have "reach_inv g s (search g adj s)"
    unfolding search_def using main_loop_reach[OF adj(2) init_reach] .
  with assms(2,3,4) have "distances (search g adj s) t = Some Infinity"
    unfolding reach_inv_def by metis
  then show ?thesis by (simp add: dijkstra_def adj(1) Let_def)
qed

subsection \<open>Walks: reversal\<close>

lemma is_walk_rev: "is_walk g s q t \<Longrightarrow> is_walk g t (rev_walk q) s"
proof (induction q arbitrary: s)
  case Nil
  then show ?case by (simp add: rev_walk_def)
next
  case (Cons e q)
  obtain u v w where e: "e = (u, v, w)" by (cases e)
  from Cons.prems have us: "u = s" and arc: "(u, v, w) \<in> set (arcs g)" and walk: "is_walk g v q t"
    unfolding e by auto
  have "rev_walk (e # q) = rev_walk q @ [(v, u, w)]" by (simp add: rev_walk_def e)
  with Cons.IH[OF walk] arcs_sym[OF arc] us show ?case by (simp add: is_walk_snoc)
qed

lemma walk_weight_rev [simp]: "walk_weight (rev_walk q) = walk_weight q"
  by (induction q) (auto simp: rev_walk_def walk_weight_def)

lemma min_walk_weight_sym:
  assumes "is_min_walk_weight g s t m"
  shows "is_min_walk_weight g t s m"
proof -
  from assms obtain q where q: "is_walk g s q t" "walk_weight q = m"
    and least: "\<And>q'. is_walk g s q' t \<Longrightarrow> m \<le> walk_weight q'"
    unfolding is_min_walk_weight_def by blast
  have "is_walk g t (rev_walk q) s \<and> walk_weight (rev_walk q) = m"
    using is_walk_rev[OF q(1)] q(2) by simp
  moreover have "m \<le> walk_weight q'" if "is_walk g t q' s" for q'
    using least[OF is_walk_rev[OF that]] by simp
  ultimately show ?thesis unfolding is_min_walk_weight_def by blast
qed

lemma min_walk_weight_unique:
  assumes "is_min_walk_weight g s t m" "is_min_walk_weight g s t m'"
  shows "m = m'"
  using assms unfolding is_min_walk_weight_def by (metis order_antisym)

lemma is_walk_last_arc:
  "is_walk g s q t \<Longrightarrow> q \<noteq> [] \<Longrightarrow> \<exists>u w. (u, t, w) \<in> set (arcs g)"
proof (induction q rule: rev_induct)
  case Nil
  then show ?case by simp
next
  case (snoc e q)
  obtain z v w where e: "e = (z, v, w)" by (cases e)
  from snoc.prems(1) show ?case unfolding e by (auto simp: is_walk_snoc)
qed

lemma is_walk_first_arc:
  "is_walk g s q t \<Longrightarrow> q \<noteq> [] \<Longrightarrow> \<exists>v w. (s, v, w) \<in> set (arcs g)"
proof -
  assume walk: "is_walk g s q t" and "q \<noteq> []"
  then obtain u v w q' where q: "q = (u, v, w) # q'" by (cases q) auto
  with walk have "(s, v, w) \<in> set (arcs g)" by auto
  then show ?thesis by blast
qed

subsection \<open>A connection to an unknown waypoint\<close>

lemma push_edge_dom: "push_edge m e = Inr m' \<Longrightarrow> dom m' = dom m"
  by (auto simp: push_edge_def Let_def split: option.splits if_splits)

lemma push_edges_Inl:
  "\<exists>e \<in> set es. edge_a e \<notin> dom m \<or> edge_b e \<notin> dom m \<Longrightarrow> push_edges m es = Inl TypeError"
proof (induction es arbitrary: m)
  case Nil
  then show ?case by simp
next
  case (Cons e es)
  show ?case
  proof (cases "push_edge m e")
    case (Inl err)
    then show ?thesis by (cases err) simp
  next
    case (Inr m')
    then have "edge_a e \<in> dom m \<and> edge_b e \<in> dom m"
      using push_edge_Inl[of e m] by auto
    with Cons.prems push_edge_dom[OF Inr] have "\<exists>e \<in> set es. edge_a e \<notin> dom m' \<or> edge_b e \<notin> dom m'"
      by auto
    from Cons.IH[OF this] Inr show ?thesis by simp
  qed
qed

lemma dijkstra_dangling:
  assumes "\<not> endpoints_exist g"
  shows "dijkstra g s t = Throws TypeError"
proof -
  from assms have "\<exists>e \<in> set (edges g). edge_a e \<notin> dom (init_adjacency (nodes g)) \<or>
      edge_b e \<notin> dom (init_adjacency (nodes g))"
    by (auto simp: endpoints_exist_def dom_init_adjacency ids_def)
  from push_edges_Inl[OF this] show ?thesis
    by (simp add: dijkstra_def build_adjacency_def)
qed

subsection \<open>The order of the unvisited set\<close>

lemma foldl_set_add:
  "unvisited (foldl init_node st ns) = foldl set_add (unvisited st) (map node_id ns)"
  by (induction ns arbitrary: st) (simp_all add: init_node_def)

lemma foldr_set_add: "foldr (\<lambda>x acc. set_add acc x) ys [] = rev (remdups ys)"
  by (induction ys) (auto simp: set_add_def)

lemma unvisited_init: "unvisited (init_state g s) = rev (remdups (rev (ids g)))"
proof -
  have "unvisited (init_state g s) = foldl set_add [] (ids g)"
    by (simp add: init_state_def Let_def foldl_set_add ids_def)
  also have "\<dots> = foldr (\<lambda>x acc. set_add acc x) (rev (ids g)) []"
    by (simp add: foldl_conv_foldr)
  finally show ?thesis by (simp add: foldr_set_add)
qed

lemma unvisited_init_distinct: "distinct (ids g) \<Longrightarrow> unvisited (init_state g s) = ids g"
  by (simp add: unvisited_init distinct_remdups_id)

subsection \<open>Whole-number weights\<close>

text \<open>With whole-number weights no sum up to \<open>2^53\<close> is rounded.\<close>

lemma arcs_integer:
  assumes "integer_weights g" "(u, v, w) \<in> set (arcs g)"
  shows "of_int \<lfloor>w\<rfloor> = w"
  using assms by (auto simp: integer_weights_def arcs_def)

lemma walk_weight_whole:
  "is_walk g s q t \<Longrightarrow> valid_graph g \<Longrightarrow> integer_weights g \<Longrightarrow>
   \<exists>n. 0 \<le> n \<and> walk_weight q = of_int n"
proof (induction q arbitrary: t rule: rev_induct)
  case Nil
  then show ?case by (intro exI[of _ 0]) simp
next
  case (snoc e q)
  obtain z v w where e: "e = (z, v, w)" by (cases e)
  from snoc.prems(1) have walk: "is_walk g s q z" and arc: "(z, v, w) \<in> set (arcs g)"
    unfolding e by (auto simp: is_walk_snoc)
  from snoc.IH[OF walk snoc.prems(2,3)] obtain n where n: "0 \<le> n" "walk_weight q = of_int n" by blast
  have w: "0 < w" using arcs_valid(3)[OF snoc.prems(2) arc] .
  note wi = arcs_integer[OF snoc.prems(3) arc]
  from w have "0 \<le> \<lfloor>w\<rfloor>" by simp
  moreover have "walk_weight (q @ [e]) = of_int (n + \<lfloor>w\<rfloor>)"
  proof -
    have "walk_weight (q @ [e]) = walk_weight q + w" unfolding e by simp
    also have "\<dots> = of_int n + of_int \<lfloor>w\<rfloor>" by (simp only: n(2) wi)
    finally show ?thesis by simp
  qed
  ultimately show ?case using n(1) by (intro exI[of _ "n + \<lfloor>w\<rfloor>"]) simp
qed

lemma round_double_whole:
  assumes "0 \<le> n" "(of_int n :: rat) \<le> 2 ^ 53"
  shows "round_double (of_int n) = Num (of_int n)"
proof -
  have "(of_int n :: rat) \<le> of_int (2 ^ 53)" using assms(2) by simp
  then have "n \<le> 2 ^ 53" by (simp only: of_int_le_iff)
  from is_double_of_int[OF assms(1) this] show ?thesis by (simp add: is_double_def)
qed

lemma walk_acc_exact:
  "is_walk g s q t \<Longrightarrow> valid_graph g \<Longrightarrow> integer_weights g \<Longrightarrow> walk_weight q \<le> 2 ^ 53 \<Longrightarrow>
   walk_acc q = Num (walk_weight q)"
proof (induction q arbitrary: t rule: rev_induct)
  case Nil
  then show ?case by simp
next
  case (snoc e q)
  obtain z v w where e: "e = (z, v, w)" by (cases e)
  from snoc.prems(1) have walk: "is_walk g s q z" and arc: "(z, v, w) \<in> set (arcs g)"
    unfolding e by (auto simp: is_walk_snoc)
  have w: "0 < w" using arcs_valid(3)[OF snoc.prems(2) arc] .
  with snoc.prems(4) have "walk_weight q \<le> 2 ^ 53" unfolding e by simp
  from snoc.IH[OF walk snoc.prems(2,3) this] have acc: "walk_acc q = Num (walk_weight q)" .
  from walk_weight_whole[OF snoc.prems(1,2,3)] obtain n where
    n: "0 \<le> n" "walk_weight (q @ [e]) = of_int n" by blast
  have "walk_acc (q @ [e]) = round_double (walk_weight (q @ [e]))"
    unfolding e by (simp add: acc)
  also have "\<dots> = Num (walk_weight (q @ [e]))"
    unfolding n(2) using round_double_whole[OF n(1)] snoc.prems(4) n(2) by simp
  finally show ?case .
qed

lemma walk_acc_big:
  "is_walk g s q t \<Longrightarrow> valid_graph g \<Longrightarrow> integer_weights g \<Longrightarrow> 2 ^ 53 < walk_weight q \<Longrightarrow>
   le (Num (2 ^ 53)) (walk_acc q)"
proof (induction q arbitrary: t rule: rev_induct)
  case Nil
  then show ?case by simp
next
  case (snoc e q)
  obtain z v w where e: "e = (z, v, w)" by (cases e)
  from snoc.prems(1) have walk: "is_walk g s q z" and arc: "(z, v, w) \<in> set (arcs g)"
    unfolding e by (auto simp: is_walk_snoc)
  have w: "0 \<le> w" using arcs_valid(3)[OF snoc.prems(2) arc] by simp
  have acc: "walk_acc (q @ [e]) = js_add (walk_acc q) w" unfolding e by simp
  have gq: "good (walk_acc q)" using good_walk_acc[OF walk snoc.prems(2)] .
  show ?case
  proof (cases "2 ^ 53 < walk_weight q")
    case True
    from snoc.IH[OF walk snoc.prems(2,3) True] js_add_increases[OF gq w]
    show ?thesis unfolding acc by (rule le_trans)
  next
    case False
    then have small: "walk_weight q \<le> 2 ^ 53" by simp
    have exact: "walk_acc q = Num (walk_weight q)"
      using walk_acc_exact[OF walk snoc.prems(2,3) small] .
    have big: "(2 ^ 53 :: rat) \<le> walk_weight q + w" using snoc.prems(4) unfolding e by simp
    have r53: "round_double (2 ^ 53) = Num (2 ^ 53)"
      using round_double_whole[of "2 ^ 53"] by simp
    have good: "good (js_add (walk_acc q) w)" using good_js_add[OF gq w] .
    show ?thesis
    proof (cases "js_add (walk_acc q) w")
      case (Num b)
      then have rb: "round_double (walk_weight q + w) = Num b" by (simp add: exact)
      from round_double_mono[OF _ big rb] r53 have "2 ^ 53 \<le> b" by simp
      then show ?thesis unfolding acc Num by simp
    next
      case Infinity
      then show ?thesis unfolding acc by simp
    next
      case NegInfinity
      with good show ?thesis by (simp add: good_def)
    next
      case NaN
      with good show ?thesis by (simp add: good_def)
    qed
  qed
qed

lemma min_walk_acc_exact:
  assumes valid: "valid_graph g" and whole: "integer_weights g"
    and walk: "is_walk g s q0 t" and small: "walk_weight q0 \<le> 2 ^ 53"
    and min: "is_min_walk_acc g s t m"
  shows "is_min_walk_weight g s t m"
proof -
  from min obtain q where q: "is_walk g s q t" "walk_acc q = Num m"
    and least: "\<And>q' y. is_walk g s q' t \<Longrightarrow> walk_acc q' = Num y \<Longrightarrow> m \<le> y"
    unfolding is_min_walk_acc_def by blast
  have m0: "m \<le> walk_weight q0"
    using least[OF walk walk_acc_exact[OF walk valid whole small]] .
  have lower: "m \<le> walk_weight q'" if q': "is_walk g s q' t" for q'
  proof (cases "walk_weight q' \<le> 2 ^ 53")
    case True
    from least[OF q' walk_acc_exact[OF q' valid whole True]] show ?thesis .
  next
    case False
    with m0 small show ?thesis by simp
  qed
  have "\<exists>q'. is_walk g s q' t \<and> walk_weight q' = m"
  proof (cases "walk_weight q \<le> 2 ^ 53")
    case True
    from walk_acc_exact[OF q(1) valid whole True] q(2) have "walk_weight q = m" by simp
    with q(1) show ?thesis by blast
  next
    case False
    then have "2 ^ 53 < walk_weight q" by simp
    from walk_acc_big[OF q(1) valid whole this] q(2) have "2 ^ 53 \<le> m" by simp
    with m0 small have "walk_weight q0 = m" by simp
    with walk show ?thesis by blast
  qed
  with lower show ?thesis unfolding is_min_walk_weight_def by blast
qed

subsection \<open>Entry point and example data\<close>

lemma findRoute_dijkstra:
  "s \<noteq> [] \<Longrightarrow> t \<noteq> [] \<Longrightarrow> s \<noteq> t \<Longrightarrow>
   findRoute g s t =
     (case dijkstra g s t of
        Throws err \<Rightarrow> Throws err
      | Diverges \<Rightarrow> Diverges
      | Returns None \<Rightarrow> Returns ((Text ''No route found between selected locations'', Error), None)
      | Returns (Some r) \<Rightarrow> Returns ((Route_found (distance r), Success), Some r))"
  by (simp add: findRoute_def)

lemma sample_valid: "valid_graph sample_graph"
  by (simp add: valid_graph_def endpoints_exist_def sample_graph_def ids_def mk_node_def mk_edge_def)

lemma sample_ids: "ids sample_graph = [''p'', ''q'', ''r'', ''z'']"
  by (simp add: sample_graph_def ids_def mk_node_def)

lemma sample_arcs:
  "arcs sample_graph = [(''p'', ''q'', 3 / 2), (''q'', ''p'', 3 / 2), (''q'', ''r'', 2), (''r'', ''q'', 2),
     (''p'', ''r'', 4), (''r'', ''p'', 4)]"
  by (simp add: sample_graph_def arcs_def mk_edge_def)

lemma sample_adjacency:
  "build_adjacency sample_graph = Inr adj \<Longrightarrow>
   adj ''z'' = Some [] \<and> adj ''p'' = Some [(''q'', 3 / 2), (''r'', 4)]"
  using build_adjacency_Inr[OF valid_endpoints[OF sample_valid]]
  by (auto simp: sample_ids) (simp_all add: sample_graph_def out_arcs_def mk_edge_def)

lemma dangling_arcs: "arcs dangling_graph = [(''p'', ''ghost'', 1), (''ghost'', ''p'', 1)]"
  by (simp add: dangling_graph_def arcs_def mk_edge_def)

lemma dangling_ids: "ids dangling_graph = [''p'', ''q'']"
  by (simp add: dangling_graph_def ids_def mk_node_def)

lemma dangling_not_valid: "\<not> endpoints_exist dangling_graph"
  by (simp add: endpoints_exist_def dangling_graph_def ids_def mk_node_def mk_edge_def)

lemma default_ids:
  "ids getDefaultGraphData = [''main_gate'', ''entrance_junction'', ''admin_block1'', ''hostel1'',
     ''academic_block1'', ''academic_block2'', ''library'', ''cafeteria'', ''sports_complex'',
     ''auditorium'', ''parking_area'', ''north_junction'', ''east_junction'', ''south_junction'',
     ''west_junction'', ''center_junction'']"
  by (simp add: getDefaultGraphData_def ids_def mk_node_def)

lemma default_valid: "valid_graph getDefaultGraphData"
  unfolding valid_graph_def endpoints_exist_def default_ids
  by (simp add: getDefaultGraphData_def mk_edge_def)

subsection \<open>Waypoints no walk reaches\<close>

lemma no_walk_to_isolated:
  assumes "s \<noteq> t" "\<forall>u w. (u, t, w) \<notin> set (arcs g)"
  shows "\<not> is_walk g s q t"
proof
  assume walk: "is_walk g s q t"
  show False
  proof (cases "q = []")
    case True
    with walk assms(1) show False by simp
  next
    case False
    from is_walk_last_arc[OF walk False] assms(2) show False by blast
  qed
qed


subsection \<open>The default graph: main gate to library\<close>

lemma default_library_route:
  "dijkstra getDefaultGraphData ''main_gate'' ''library'' = Returns (Some library_route)"
  by code_simp

lemma default_library_distance:
  "(case build_adjacency getDefaultGraphData of
      Inl err \<Rightarrow> None
    | Inr adj \<Rightarrow> distances (search getDefaultGraphData adj ''main_gate'') ''library'') = Some (Num 480)"
  by code_simp

lemma default_plain: "''__proto__'' \<notin> set (ids getDefaultGraphData)"
  by (simp add: default_ids)

lemma default_integer: "integer_weights getDefaultGraphData"
  by (simp add: integer_weights_def getDefaultGraphData_def mk_edge_def)

lemma default_spec_walk:
  "is_walk getDefaultGraphData ''main_gate''
     [(''main_gate'', ''entrance_junction'', 120), (''entrance_junction'', ''south_junction'', 150),
      (''south_junction'', ''west_junction'', 180), (''west_junction'', ''library'', 100)] ''library''"
  by (simp add: arcs_def getDefaultGraphData_def mk_edge_def)

lemma default_spec_weight:
  "walk_weight
     [(''main_gate'', ''entrance_junction'', 120), (''entrance_junction'', ''south_junction'', 150),
      (''south_junction'', ''west_junction'', 180), (''west_junction'', ''library'', 100 :: rat)] = 550"
  by (simp add: walk_weight_def)

lemma default_library_min: "is_min_walk_weight getDefaultGraphData ''main_gate'' ''library'' 480"
proof -
  from build_adjacency_of[OF valid_endpoints[OF default_valid]] obtain adj where
    adj: "build_adjacency getDefaultGraphData = Inr adj" "adjacency_of getDefaultGraphData adj" by blast
  from default_library_distance adj(1)
  have d: "distances (search getDefaultGraphData adj ''main_gate'') ''library'' = Some (Num 480)" by simp
  have s: "''main_gate'' \<in> set (ids getDefaultGraphData)" and t: "''library'' \<in> set (ids getDefaultGraphData)"
    by (simp_all add: default_ids)
  have small: "walk_weight
     [(''main_gate'', ''entrance_junction'', 120), (''entrance_junction'', ''south_junction'', 150),
      (''south_junction'', ''west_junction'', 180), (''west_junction'', ''library'', 100 :: rat)] \<le> 2 ^ 53"
    unfolding default_spec_weight by simp
  from min_walk_acc_exact[OF default_valid default_integer default_spec_walk small
      search_min[OF default_valid s adj(2) default_plain t d]]
  show ?thesis .
qed

subsection \<open>What a route query reads of the graph\<close>

lemma routing_view_ids: "routing_view g' = routing_view g \<Longrightarrow> map node_id (nodes g') = map node_id (nodes g)"
proof -
  assume "routing_view g' = routing_view g"
  then have "map fst (map (\<lambda>n. (node_id n, node_name n)) (nodes g')) =
             map fst (map (\<lambda>n. (node_id n, node_name n)) (nodes g))"
    by (simp add: routing_view_def)
  then show ?thesis by (simp add: comp_def)
qed

lemma routing_view_edges: "routing_view g' = routing_view g \<Longrightarrow> edges g' = edges g"
  by (simp add: routing_view_def)

lemma init_adjacency_ids: "init_adjacency ns = foldl (\<lambda>m i. m(i \<mapsto> [])) Map.empty (map node_id ns)"
  by (simp add: init_adjacency_def foldl_map)

lemma init_state_ids:
  "foldl init_node st ns =
     foldl (\<lambda>st i. let st2 = set_previous (set_distance st i Infinity) i None
                    in st2\<lparr>unvisited := set_add (unvisited st2) i\<rparr>) st (map node_id ns)"
  by (simp add: foldl_map init_node_def[abs_def] Let_def)

lemma find_pair:
  "map_option (\<lambda>n. (node_id n, node_name n)) (find (\<lambda>n. node_id n = s) ns) =
   find (\<lambda>k. fst k = s) (map (\<lambda>n. (node_id n, node_name n)) ns)"
  by (induction ns) auto

lemma find_node_view:
  assumes "routing_view g' = routing_view g"
  shows "map_option (\<lambda>n. (node_id n, node_name n)) (find_node g' x) =
         map_option (\<lambda>n. (node_id n, node_name n)) (find_node g x)"
proof (cases x)
  case (Str s)
  from assms have "map (\<lambda>n. (node_id n, node_name n)) (nodes g') = map (\<lambda>n. (node_id n, node_name n)) (nodes g)"
    by (simp add: routing_view_def)
  then show ?thesis by (simp add: Str find_pair)
qed simp_all

lemma generateSteps_view:
  assumes "routing_view g' = routing_view g"
  shows "generateSteps g' p = generateSteps g p"
proof (induction p rule: induct_list012)
  case 1
  then show ?case by simp
next
  case (2 x)
  then show ?case by simp
next
  case (3 x y zs)
  note fx = find_node_view[OF assms, of x] and fy = find_node_view[OF assms, of y]
  have e: "edges g' = edges g" using routing_view_edges[OF assms] .
  show ?case
  proof (cases "find_node g x")
    case None
    with fx have "find_node g' x = None" by simp
    with None show ?thesis by simp
  next
    case nx: (Some nx)
    with fx obtain nx' where nx': "find_node g' x = Some nx'" "node_id nx' = node_id nx" "node_name nx' = node_name nx"
      by auto
    show ?thesis
    proof (cases "find_node g y")
      case None
      with fy have "find_node g' y = None" by simp
      with None nx nx' show ?thesis by simp
    next
      case ny: (Some ny)
      with fy obtain ny' where ny': "find_node g' y = Some ny'" "node_id ny' = node_id ny" "node_name ny' = node_name ny"
        by auto
      from "3.IH"(2) show ?thesis by (simp add: nx ny nx' ny' e Let_def)
    qed
  qed
qed

lemma dijkstra_view:
  assumes "routing_view g' = routing_view g"
  shows "dijkstra g' s t = dijkstra g s t"
proof -
  have i: "map node_id (nodes g') = map node_id (nodes g)" using routing_view_ids[OF assms] .
  have e: "edges g' = edges g" using routing_view_edges[OF assms] .
  have b: "build_adjacency g' = build_adjacency g"
    by (simp add: build_adjacency_def init_adjacency_ids i e)
  have "init_state g' s = init_state g s"
    by (simp add: init_state_def init_state_ids i)
  then have se: "search g' = (\<lambda>adj s'. if s' = s then search g adj s else search g' adj s')"
    by (auto simp: search_def fun_eq_iff)
  have gs: "generateSteps g' = generateSteps g"
    using generateSteps_view[OF assms] by (simp add: fun_eq_iff)
  show ?thesis
    unfolding dijkstra_def b gs by (subst se) (cases "build_adjacency g"; simp)
qed

lemma dragend_view: "routing_view (dragend admin g i la lo) = routing_view g"
proof -
  have "map (\<lambda>n. (node_id n, node_name n)) ((nodes g)[i := (nodes g ! i)\<lparr>lat := la, lng := lo\<rparr>]) =
        map (\<lambda>n. (node_id n, node_name n)) (nodes g)" if "i < length (nodes g)"
    using that by (simp add: map_update list_update_same_conv)
  then show ?thesis by (simp add: routing_view_def dragend_def)
qed

subsection \<open>A tie between two waypoints\<close>

lemma tie_ids: "ids tie_graph = [''a'', ''b'', ''c'']"
  by (simp add: tie_graph_def ids_def mk_node_def)

lemma tie_arcs: "arcs tie_graph = [(''a'', ''c'', 3), (''c'', ''a'', 3), (''a'', ''b'', 3), (''b'', ''a'', 3)]"
  by (simp add: tie_graph_def arcs_def mk_edge_def)

lemma tie_valid: "valid_graph tie_graph"
  by (simp add: valid_graph_def endpoints_exist_def tie_graph_def ids_def mk_node_def mk_edge_def)

lemma tie_integer: "integer_weights tie_graph"
  by (simp add: integer_weights_def tie_graph_def mk_edge_def)

lemma tie_plain: "''__proto__'' \<notin> set (ids tie_graph)"
  by (simp add: tie_ids)

subsection \<open>An end that is no waypoint\<close>

lemma keys_invD: "keys_inv g st \<Longrightarrow> distances st ''__proto__'' = None"
  by (simp add: keys_inv_def)

text \<open>
  From a key whose read gives \<open>undefined\<close> the loop goes on to the key \<open>undefined\<close>;
  when that read gives \<open>undefined\<close> too, the loop does not end.
\<close>

lemma reconstruct_Some_chain:
  assumes some: "reconstruct inh p cur acc = Some y"
    and t: "get_previous inh p t = Undefined" and u: "get_previous inh p ''undefined'' = Undefined"
  shows "cur \<noteq> Str t \<and> cur \<noteq> Undefined"
proof -
  have "inh' = inh \<and> p' = p \<longrightarrow> cur \<noteq> Str t \<and> cur \<noteq> Undefined"
    if r: "reconstruct inh' p' cur acc = Some y" for inh' p'
  proof (rule reconstruct.raw_induct[where P = "\<lambda>inh' p' cur acc y. inh' = inh \<and> p' = p \<longrightarrow> cur \<noteq> Str t \<and> cur \<noteq> Undefined", OF _ r])
    fix f inh' p' current acc pa
    assume IH: "\<And>inh' p' current acc y. f inh' p' current acc = Some y \<Longrightarrow>
        inh' = inh \<and> p' = p \<longrightarrow> current \<noteq> Str t \<and> current \<noteq> Undefined"
      and eq: "(if current = Null then Some acc
                else f inh' p' (get_previous inh' p' (key_of current)) (current # acc)) = Some pa"
    show "inh' = inh \<and> p' = p \<longrightarrow> current \<noteq> Str t \<and> current \<noteq> Undefined"
    proof (intro impI, rule ccontr)
      assume p': "inh' = inh \<and> p' = p" and "\<not> (current \<noteq> Str t \<and> current \<noteq> Undefined)"
      then have bad: "current = Str t \<or> current = Undefined" by blast
      then have "get_previous inh p (key_of current) = Undefined"
        using t u by auto
      moreover from bad have "current \<noteq> Null" by auto
      ultimately have "f inh p Undefined (current # acc) = Some pa"
        using eq p' by simp
      from IH[OF this] show False by simp
    qed
  qed
  from this[OF some] show ?thesis by simp
qed

lemma reconstruct_diverges:
  assumes "get_previous inh p t = Undefined" "get_previous inh p ''undefined'' = Undefined"
  shows "reconstruct inh p (Str t) acc = None"
proof (cases "reconstruct inh p (Str t) acc")
  case (Some y)
  from reconstruct_Some_chain[OF Some assms] show ?thesis by simp
qed simp

lemma relax1_keys:
  assumes "keys_inv g st" "nb \<in> set (ids g)"
  shows "keys_inv g (relax1 c nb w st)"
proof (cases "lt (js_add (get_distance (distances st) c) w) (get_distance (distances st) nb)")
  case True
  from lt_get_distance_key[OF True keys_invD[OF assms(1)]] have "nb \<noteq> ''__proto__''" .
  with True show ?thesis
    using assms by (auto simp: keys_inv_def relax1_plain[OF keys_invD[OF assms(1)]] Let_def)
next
  case False
  then show ?thesis using assms by (simp add: relax1_plain[OF keys_invD[OF assms(1)]] Let_def)
qed

lemma relax_keys:
  "keys_inv g st \<Longrightarrow> \<forall>(v, w) \<in> set nbs. v \<in> set (ids g) \<Longrightarrow> keys_inv g (relax c nbs st)"
proof (induction nbs arbitrary: st)
  case Nil
  then show ?case by simp
next
  case (Cons e rest)
  obtain nb w where e: "e = (nb, w)" by (cases e)
  from Cons.prems(2) have nb: "nb \<in> set (ids g)" and rest: "\<forall>(v, w) \<in> set rest. v \<in> set (ids g)"
    unfolding e by auto
  from Cons.IH[OF relax1_keys[OF Cons.prems(1) nb] rest] show ?case
    unfolding e relax_Cons .
qed

lemma step_keys:
  assumes "endpoints_exist g" "adjacency_of g adj" "keys_inv g st" "step adj st = Some st'"
  shows "keys_inv g st'"
proof -
  from step_SomeD[OF assms(4)] obtain c where
    st': "st' = (case adj c of None \<Rightarrow> st\<lparr>unvisited := removeAll c (unvisited st)\<rparr>
                 | Some nbs \<Rightarrow> relax c nbs (st\<lparr>unvisited := removeAll c (unvisited st)\<rparr>))"
    by blast
  have k1: "keys_inv g (st\<lparr>unvisited := removeAll c (unvisited st)\<rparr>)"
    using assms(3) by (simp add: keys_inv_def)
  show ?thesis
  proof (cases "adj c")
    case None
    with st' k1 show ?thesis by simp
  next
    case (Some nbs)
    with assms(2) have "nbs = out_arcs (edges g) c"
      by (auto simp: adjacency_of_def split: if_splits)
    then have "\<forall>(v, w) \<in> set nbs. v \<in> set (ids g)"
      using arcs_endpoints(2)[OF assms(1)] by (auto simp: set_out_arcs_arcs)
    from relax_keys[OF k1 this] st' Some show ?thesis by simp
  qed
qed

lemma main_loop_keys:
  assumes "endpoints_exist g"
  shows "adjacency_of g adj \<Longrightarrow> keys_inv g st \<Longrightarrow> keys_inv g (main_loop adj st)"
proof (induction adj st rule: main_loop.induct)
  case (1 adj st)
  show ?case
  proof (cases "unvisited st = [] \<or> step adj st = None")
    case True
    then have "main_loop adj st = st" by (auto simp: main_loop.simps)
    with "1.prems" show ?thesis by simp
  next
    case False
    then obtain st' where st': "step adj st = Some st'" and ne: "unvisited st \<noteq> []" by auto
    then have eq: "main_loop adj st = main_loop adj st'" by (simp add: main_loop.simps)
    from "1.IH"[OF ne st' "1.prems"(1) step_keys[OF assms "1.prems" st']] show ?thesis unfolding eq .
  qed
qed

lemma init_keys: "keys_inv g (init_state g s)"
proof -
  have "previous (init_state g s) v = None" if "v \<notin> set (ids g)" for v
  proof -
    have "previous (foldl init_node st ns) v = previous st v" if "v \<notin> node_id ` set ns" for st ns
      using that
      by (induction ns arbitrary: st)
        (auto simp: init_node_def Let_def set_distance_def set_previous_def split: option.splits)
    from this[of "nodes g"] that show ?thesis
      by (simp add: init_state_def set_distance_def ids_def)
  qed
  then show ?thesis by (simp add: keys_inv_def init_state_simps)
qed

text \<open>
  An end that is neither a waypoint nor the name of an inherited property: the path loop
  does not end.
\<close>

lemma dijkstra_unknown_end:
  assumes "endpoints_exist g" "t \<notin> set (ids g)" "''undefined'' \<notin> set (ids g)"
    "t \<notin> set object_prototype_names"
  shows "dijkstra g s t = Diverges"
proof -
  from build_adjacency_of[OF assms(1)] obtain adj where
    adj: "build_adjacency g = Inr adj" "adjacency_of g adj" by blast
  let ?st = "search g adj s"
  have k: "keys_inv g ?st"
    unfolding search_def using main_loop_keys[OF assms(1) adj(2) init_keys] .
  from k assms(2) have t: "previous ?st t = None" "distances ?st t \<noteq> Some Infinity"
    by (simp_all add: keys_inv_def)
  from k assms(3) have u: "previous ?st ''undefined'' = None"
    by (simp add: keys_inv_def)
  have gt: "get_previous (previous_inherits ?st) (previous ?st) t = Undefined"
    using t(1) assms(4) by (simp add: get_previous_def)
  have gu: "get_previous (previous_inherits ?st) (previous ?st) ''undefined'' = Undefined"
    using u by (simp add: get_previous_def object_prototype_names_def)
  show ?thesis
    by (simp add: dijkstra_def adj(1) Let_def t(2) reconstruct_diverges[OF gt gu])
qed

subsection \<open>Sums that depend on the direction\<close>

lemma float_weights:
  "round_double (1 / 10) = Num (3602879701896397 / 36028797018963968)"
  "round_double (6 / 10) = Num (5404319552844595 / 9007199254740992)"
  "round_double (38 / 10) = Num (4278419646001971 / 1125899906842624)"
  by code_simp+

lemma float_doubles: "weights_are_doubles float_graph"
  unfolding weights_are_doubles_def by code_simp

lemma float_valid: "valid_graph float_graph"
  by (simp add: valid_graph_def endpoints_exist_def float_graph_def ids_def mk_node_def mk_edge_def)

lemma float_ids: "ids float_graph = [''a'', ''b'', ''c'', ''d'']"
  by (simp add: float_graph_def ids_def mk_node_def)

lemma float_walk:
  "is_walk float_graph ''a''
     [(''a'', ''b'', 3602879701896397 / 36028797018963968),
      (''b'', ''c'', 5404319552844595 / 9007199254740992),
      (''c'', ''d'', 4278419646001971 / 1125899906842624)] ''d''"
  by (simp add: float_graph_def arcs_def mk_edge_def)

lemma float_walk_weight:
  "walk_weight
     [(''a'', ''b'', 3602879701896397 / 36028797018963968),
      (''b'', ''c'', 5404319552844595 / 9007199254740992),
      (''c'', ''d'', 4278419646001971 / 1125899906842624 :: rat)] < 9 / 2"
  by (simp add: walk_weight_def)

lemma float_forward:
  "map_outcome (map_option distance) (dijkstra float_graph ''a'' ''d'') = Returns (Some (Num 5))"
  by code_simp

lemma float_backward:
  "map_outcome (map_option distance) (dijkstra float_graph ''d'' ''a'') = Returns (Some (Num 4))"
  by code_simp

subsection \<open>The rounds of the loop\<close>

lemma rounds_Cons: "\<exists>rest. rounds adj st = st # rest"
  by (subst rounds.simps) (auto split: option.splits)

lemma hd_rounds [simp]: "hd (rounds adj st) = st"
  using rounds_Cons[of adj st] by auto

lemma rounds_ne [simp]: "rounds adj st \<noteq> []"
  using rounds_Cons[of adj st] by auto

lemma last_rounds: "last (rounds adj st) = main_loop adj st"
proof (induction adj st rule: main_loop.induct)
  case (1 adj st)
  show ?case
  proof (cases "unvisited st = [] \<or> step adj st = None")
    case True
    then have "rounds adj st = [st]" "main_loop adj st = st"
      by (auto simp: rounds.simps main_loop.simps)
    then show ?thesis by simp
  next
    case False
    then obtain st' where st': "step adj st = Some st'" and ne: "unvisited st \<noteq> []" by auto
    then have "rounds adj st = st # rounds adj st'" "main_loop adj st = main_loop adj st'"
      by (simp_all add: rounds.simps main_loop.simps)
    with "1.IH"[OF ne st'] show ?thesis by simp
  qed
qed

lemma rounds_step:
  "Suc i < length (rounds adj st) \<Longrightarrow> step adj (rounds adj st ! i) = Some (rounds adj st ! Suc i)"
proof (induction adj st arbitrary: i rule: main_loop.induct)
  case (1 adj st)
  show ?case
  proof (cases "unvisited st = [] \<or> step adj st = None")
    case True
    then have "rounds adj st = [st]" by (auto simp: rounds.simps)
    with "1.prems" show ?thesis by simp
  next
    case False
    then obtain st' where st': "step adj st = Some st'" and ne: "unvisited st \<noteq> []" by auto
    then have eq: "rounds adj st = st # rounds adj st'" by (simp add: rounds.simps)
    show ?thesis
    proof (cases i)
      case 0
      then show ?thesis using st' by (simp add: eq hd_conv_nth[symmetric])
    next
      case (Suc j)
      with "1.prems" have "Suc j < length (rounds adj st')" by (simp add: eq)
      from "1.IH"[OF ne st' this] show ?thesis by (simp add: eq Suc)
    qed
  qed
qed

lemma step_unvisited:
  assumes "step adj st = Some st'"
  shows "\<exists>c. find_min (distances st) (unvisited st) None Infinity = Some c \<and>
             unvisited st' = removeAll c (unvisited st)"
proof -
  from step_SomeD[OF assms] obtain c where
    c: "find_min (distances st) (unvisited st) None Infinity = Some c"
    and st': "st' = (case adj c of None \<Rightarrow> st\<lparr>unvisited := removeAll c (unvisited st)\<rparr>
                     | Some nbs \<Rightarrow> relax c nbs (st\<lparr>unvisited := removeAll c (unvisited st)\<rparr>))"
    by blast
  have "unvisited st' = removeAll c (unvisited st)"
    unfolding st' by (cases "adj c") simp_all
  with c show ?thesis by blast
qed

lemma rounds_distinct:
  "distinct (unvisited st) \<Longrightarrow> x \<in> set (rounds adj st) \<Longrightarrow> distinct (unvisited x)"
proof (induction adj st rule: main_loop.induct)
  case (1 adj st)
  show ?case
  proof (cases "unvisited st = [] \<or> step adj st = None")
    case True
    then have "rounds adj st = [st]" by (auto simp: rounds.simps)
    with "1.prems" show ?thesis by simp
  next
    case False
    then obtain st' where st': "step adj st = Some st'" and ne: "unvisited st \<noteq> []" by auto
    then have eq: "rounds adj st = st # rounds adj st'" by (simp add: rounds.simps)
    from step_unvisited[OF st'] "1.prems"(1) have d': "distinct (unvisited st')"
      by (auto simp: distinct_removeAll)
    from "1.prems"(2) eq have "x = st \<or> x \<in> set (rounds adj st')" by simp
    then show ?thesis using "1.prems"(1) "1.IH"[OF ne st' d'] by blast
  qed
qed

lemma subseq_removeAll: "subseq (removeAll c xs) xs"
  unfolding removeAll_filter_not_eq by (rule subseq_filter_left)

lemma rounds_subseq:
  "x \<in> set (rounds adj st) \<Longrightarrow> subseq (unvisited x) (unvisited st)"
proof (induction adj st rule: main_loop.induct)
  case (1 adj st)
  show ?case
  proof (cases "unvisited st = [] \<or> step adj st = None")
    case True
    then have "rounds adj st = [st]" by (auto simp: rounds.simps)
    with "1.prems" show ?thesis by simp
  next
    case False
    then obtain st' where st': "step adj st = Some st'" and ne: "unvisited st \<noteq> []" by auto
    then have eq: "rounds adj st = st # rounds adj st'" by (simp add: rounds.simps)
    from step_unvisited[OF st'] have sub: "subseq (unvisited st') (unvisited st)"
      by (auto simp: subseq_removeAll)
    from "1.prems" eq have "x = st \<or> x \<in> set (rounds adj st')" by simp
    then show ?thesis
    proof
      assume "x = st"
      then show ?thesis by simp
    next
      assume "x \<in> set (rounds adj st')"
      from "1.IH"[OF ne st' this] sub show ?thesis by (rule subseq_order.trans)
    qed
  qed
qed

lemma subseq_foldl_set_add: "subseq (foldl set_add acc xs) (acc @ xs)"
proof (induction xs arbitrary: acc)
  case Nil
  then show ?case by simp
next
  case (Cons x xs)
  show ?case
  proof (cases "x \<in> set acc")
    case True
    then have "foldl set_add acc (x # xs) = foldl set_add acc xs" by (simp add: set_add_def)
    moreover have "subseq xs (x # xs)" by (rule list_emb_Cons) simp
    then have "subseq (acc @ xs) (acc @ x # xs)" by (simp add: subseq_append')
    ultimately show ?thesis using Cons.IH[of acc] by (metis subseq_order.trans)
  next
    case False
    then have "foldl set_add acc (x # xs) = foldl set_add (acc @ [x]) xs" by (simp add: set_add_def)
    with Cons.IH[of "acc @ [x]"] show ?thesis by simp
  qed
qed

lemma subseq_unvisited_init: "subseq (unvisited (init_state g s)) (ids g)"
proof -
  have "unvisited (init_state g s) = foldl set_add [] (ids g)"
    by (simp add: init_state_def foldl_set_add ids_def)
  then show ?thesis using subseq_foldl_set_add[of "[]" "ids g"] by simp
qed

lemma rounds_node_order:
  assumes "x \<in> set (rounds adj (init_state g s))"
  shows "subseq (unvisited x) (ids g)"
  using rounds_subseq[OF assms] subseq_unvisited_init by (rule subseq_order.trans)

text \<open>
  In a round the waypoint selected is the first one of least distance in the order of
  \<open>unvisited\<close>, and the round takes that waypoint out and nothing else.
\<close>

lemma step_selects:
  assumes "step adj st = Some st'" "distinct (unvisited st)"
  shows "\<exists>pre c post. unvisited st = pre @ c # post \<and>
           lt (get_distance (distances st) c) Infinity \<and>
           (\<forall>u \<in> set pre. \<not> lt (get_distance (distances st) u) (get_distance (distances st) c) \<and>
                           get_distance (distances st) u \<noteq> get_distance (distances st) c) \<and>
           (\<forall>u \<in> set post. \<not> lt (get_distance (distances st) u) (get_distance (distances st) c)) \<and>
           unvisited st' = pre @ post"
proof -
  from step_unvisited[OF assms(1)] obtain c where
    c: "find_min (distances st) (unvisited st) None Infinity = Some c"
    and u': "unvisited st' = removeAll c (unvisited st)" by blast
  from find_min_first[OF c] obtain pre post where
    U: "unvisited st = pre @ c # post" and fin: "lt (get_distance (distances st) c) Infinity"
    and pre: "\<forall>u \<in> set pre. \<not> lt (get_distance (distances st) u) (get_distance (distances st) c) \<and>
                get_distance (distances st) u \<noteq> get_distance (distances st) c"
    and post: "\<forall>u \<in> set post. \<not> lt (get_distance (distances st) u) (get_distance (distances st) c)"
    by auto
  from assms(2) U have "c \<notin> set pre" "c \<notin> set post" by auto
  then have "removeAll c (pre @ c # post) = pre @ post" by simp
  with u' U have "unvisited st' = pre @ post" by simp
  with U fin pre post show ?thesis by blast
qed

subsection \<open>A waypoint called \<open>__proto__\<close>\<close>

lemma proto_ids: "ids proto_graph = [''__proto__'', ''p'', ''q'']"
  by (simp add: proto_graph_def ids_def mk_node_def)

lemma proto_arcs: "arcs proto_graph = [(''p'', ''__proto__'', 2), (''__proto__'', ''p'', 2)]"
  by (simp add: proto_graph_def arcs_def mk_edge_def)

lemma proto_valid: "valid_graph proto_graph"
  by (simp add: valid_graph_def endpoints_exist_def proto_graph_def ids_def mk_node_def mk_edge_def)

lemma proto_integer: "integer_weights proto_graph"
  by (simp add: integer_weights_def proto_graph_def mk_edge_def)

lemma dijkstra_search_of:
  "dijkstra g s t =
     (case search_of g s of
        None \<Rightarrow> Throws TypeError
      | Some st \<Rightarrow>
          if distances st t = Some Infinity then Returns None
          else
            (case reconstruct (previous_inherits st) (previous st) (Str t) [] of
               None \<Rightarrow> Diverges
             | Some p \<Rightarrow>
                 (case generateSteps g p of
                    Inl err \<Rightarrow> Throws err
                  | Inr ss \<Rightarrow>
                      Returns (Some \<lparr>path = p, distance = Math_round (get_distance (distances st) t),
                                     steps = ss\<rparr>))))"
proof (cases "build_adjacency g")
  case (Inl err)
  then show ?thesis by (cases err) (simp add: dijkstra_def search_of_def)
next
  case (Inr adj)
  then show ?thesis by (simp add: dijkstra_def search_of_def Let_def)
qed

lemma dijkstra_diverges:
  assumes "search_of g s = Some st" "distances st t \<noteq> Some Infinity"
    "get_previous (previous_inherits st) (previous st) t = Undefined"
    "get_previous (previous_inherits st) (previous st) ''undefined'' = Undefined"
  shows "dijkstra g s t = Diverges"
  by (simp add: dijkstra_search_of assms(1,2) reconstruct_diverges[OF assms(3,4)])

text \<open>
  What the search leaves under the key \<open>__proto__\<close>: \<open>distances\<close> does not own it, and
  \<open>previous\<close>, which lost its prototype, neither owns nor inherits it.
\<close>

lemma proto_state:
  "map_option (\<lambda>st. (distances st ''__proto__'',
        get_previous (previous_inherits st) (previous st) ''__proto__'',
        get_previous (previous_inherits st) (previous st) ''undefined''))
     (search_of proto_graph s) = Some (None, Undefined, Undefined)"
  if "s = ''p'' \<or> s = ''q'' \<or> s = ''nowhere''"
  using that by (elim disjE; hypsubst) code_simp+

lemma proto_diverges:
  assumes "s = ''p'' \<or> s = ''q'' \<or> s = ''nowhere''"
  shows "dijkstra proto_graph s ''__proto__'' = Diverges"
proof -
  from proto_state[OF assms] obtain st where
    st: "search_of proto_graph s = Some st" "distances st ''__proto__'' = None"
      "get_previous (previous_inherits st) (previous st) ''__proto__'' = Undefined"
      "get_previous (previous_inherits st) (previous st) ''undefined'' = Undefined"
    by auto
  from st(2) have "distances st ''__proto__'' \<noteq> Some Infinity" by simp
  from dijkstra_diverges[OF st(1) this st(3,4)] show ?thesis .
qed

lemma proto_backward: "dijkstra proto_graph ''__proto__'' ''p'' = Returns None"
  by code_simp

subsection \<open>Importing a graph\<close>




text \<open>
  When the refresh throws, the graph has been replaced already and the error toast is
  shown; so it is with a node that has no coordinates.
\<close>

lemma import_refresh_throws:
  assumes "v \<noteq> JNull" "\<not> lacks v ''nodes''" "\<not> lacks v ''edges''"
    "\<not> (addMarkers v \<and> buildSearchIndex v \<and> populateSelects v)"
  shows "importGraph g (Some (Parsed v)) = (v, Some (Text ''Error importing graph data'', Error))"
  using assms by auto

lemma import_without_coordinates:
  "importGraph g
     (Some (Parsed (JObject [(''nodes'', JArray [JObject [(''id'', JString ''p'')]]), (''edges'', JArray [])]))) =
   (JObject [(''nodes'', JArray [JObject [(''id'', JString ''p'')]]), (''edges'', JArray [])],
    Some (Text ''Error importing graph data'', Error))"
  by (rule import_refresh_throws) (simp_all add: lacks_def addMarkers_def marker_ok_def)

subsection \<open>Two ways of the same length\<close>

lemma diamond_adjacency: "build_adjacency diamond = Inr (adjacency_list diamond)"
proof -
  have "valid_graph diamond"
    by (simp add: valid_graph_def endpoints_exist_def diamond_def ids_def mk_node_def mk_edge_def)
  from build_adjacency_of[OF valid_endpoints[OF this]] show ?thesis
    by (auto simp: adjacency_list_def)
qed

lemma diamond_path:
  "map_outcome (map_option path) (dijkstra diamond ''a'' ''d'') =
     Returns (Some [Str ''a'', Str ''b'', Str ''d''])"
  by code_simp

lemma diamond_swapped_path:
  "map_outcome (map_option path) (dijkstra diamond_swapped ''a'' ''d'') =
     Returns (Some [Str ''a'', Str ''c'', Str ''d''])"
  by code_simp

lemma diamond_rounds:
  "length (rounds (adjacency_list diamond) (init_state diamond ''a'')) = 5"
  "unvisited (rounds (adjacency_list diamond) (init_state diamond ''a'') ! 1) = [''b'', ''c'', ''d'']"
  "unvisited (rounds (adjacency_list diamond) (init_state diamond ''a'') ! Suc 1) = [''c'', ''d'']"
  "get_distance (distances (rounds (adjacency_list diamond) (init_state diamond ''a'') ! 1)) ''b'' = Num 1"
  "get_distance (distances (rounds (adjacency_list diamond) (init_state diamond ''a'') ! 1)) ''c'' = Num 1"
  by code_simp+

section \<open>The claims\<close>

text \<open>
  Claim C1, as the code has it. On a valid graph (every connection joins existing
  waypoints, every weight is positive) that has no waypoint called \<open>__proto__\<close>, for
  distinct waypoints \<open>s\<close> and \<open>t\<close> joined by a walk whose sum stays finite, \<open>dijkstra\<close> returns a route whose path is a walk from \<open>s\<close>
  to \<open>t\<close>, and whose distance is \<open>Math.round\<close> of the least weight of a walk from \<open>s\<close>
  to \<open>t\<close>, each walk summed connection by connection from \<open>s\<close> in double precision.
  When the weights are whole numbers and the walk weighs at most \<open>2^53\<close>, no sum is
  rounded and this is the least total weight of a walk. \<open>findRoute\<close> displays that route
  when both select values are non-empty.
\<close>

theorem C1_shortest_route:
  assumes "valid_graph g" "''__proto__'' \<notin> set (ids g)"
    "s \<in> set (ids g)" "t \<in> set (ids g)" "s \<noteq> t"
    "is_walk g s q0 t" "walk_acc q0 = Num y0"
  shows "\<exists>r q m. dijkstra g s t = Returns (Some r) \<and>
           path r = map Str (walk_nodes s q) \<and> is_walk g s q t \<and> walk_acc q = Num m \<and>
           hd (path r) = Str s \<and> last (path r) = Str t \<and>
           is_min_walk_acc g s t m \<and> distance r = Math_round (Num m) \<and>
           (integer_weights g \<and> walk_weight q0 \<le> 2 ^ 53 \<longrightarrow> is_min_walk_weight g s t m) \<and>
           (s \<noteq> [] \<and> t \<noteq> [] \<longrightarrow>
              findRoute g s t = Returns ((Route_found (distance r), Success), Some r))"
proof -
  from dijkstra_correct[OF assms(1,2,3,4,6,7)] obtain r q m where
    r: "dijkstra g s t = Returns (Some r)" "is_walk g s q t" "path r = map Str (walk_nodes s q)"
       "walk_acc q = Num m" "is_min_walk_acc g s t m" "distance r = Math_round (Num m)"
    by blast
  have "hd (path r) = Str s" using r(3) by (simp add: hd_map)
  moreover have "last (path r) = Str t" using r(3) last_walk_nodes[OF r(2)] by (simp add: last_map)
  moreover have "findRoute g s t = Returns ((Route_found (distance r), Success), Some r)"
    if "s \<noteq> [] \<and> t \<noteq> []"
    using that assms(5) r(1) by (simp add: findRoute_dijkstra)
  moreover have "is_min_walk_weight g s t m" if "integer_weights g \<and> walk_weight q0 \<le> 2 ^ 53"
    using min_walk_acc_exact[OF assms(1) _ assms(6) _ r(5)] that by blast
  ultimately show ?thesis using r by blast
qed

theorem C1_shortest_route_witness:
  "valid_graph tie_graph \<and> ''__proto__'' \<notin> set (ids tie_graph) \<and> ''b'' \<in> set (ids tie_graph) \<and> ''c'' \<in> set (ids tie_graph) \<and>
   ''b'' \<noteq> ''c'' \<and> is_walk tie_graph ''b'' [(''b'', ''a'', 3), (''a'', ''c'', 3)] ''c'' \<and>
   walk_acc [(''b'', ''a'', 3), (''a'', ''c'', 3)] = Num 6 \<and>
   integer_weights tie_graph \<and> walk_weight [(''b'', ''a'', 3), (''a'', ''c'', 3 :: rat)] \<le> 2 ^ 53 \<and>
   (\<exists>r m. dijkstra tie_graph ''b'' ''c'' = Returns (Some r) \<and>
      hd (path r) = Str ''b'' \<and> last (path r) = Str ''c'' \<and>
      is_min_walk_acc tie_graph ''b'' ''c'' m \<and> is_min_walk_weight tie_graph ''b'' ''c'' m \<and>
      distance r = Math_round (Num m) \<and>
      findRoute tie_graph ''b'' ''c'' = Returns ((Route_found (distance r), Success), Some r))"
proof -
  let ?q0 = "[(''b'', ''a'', 3), (''a'', ''c'', 3 :: rat)]"
  have h1: "''b'' \<in> set (ids tie_graph)" and h2: "''c'' \<in> set (ids tie_graph)"
    by (simp_all add: tie_ids)
  have h3: "''b'' \<noteq> ''c''" by simp
  have h4: "is_walk tie_graph ''b'' ?q0 ''c''" by (simp add: tie_arcs)
  have h5: "walk_weight ?q0 \<le> 2 ^ 53" by (simp add: walk_weight_def)
  have w: "walk_weight ?q0 = 6" by (simp add: walk_weight_def)
  have h6: "walk_acc ?q0 = Num 6"
    using walk_acc_exact[OF h4 tie_valid tie_integer h5] unfolding w .
  from C1_shortest_route[OF tie_valid tie_plain h1 h2 h3 h4 h6] tie_integer h5 obtain r m where
    "dijkstra tie_graph ''b'' ''c'' = Returns (Some r)"
    "hd (path r) = Str ''b''" "last (path r) = Str ''c''"
    "is_min_walk_acc tie_graph ''b'' ''c'' m" "is_min_walk_weight tie_graph ''b'' ''c'' m"
    "distance r = Math_round (Num m)"
    "findRoute tie_graph ''b'' ''c'' = Returns ((Route_found (distance r), Success), Some r)"
    by auto
  then have "\<exists>r m. dijkstra tie_graph ''b'' ''c'' = Returns (Some r) \<and>
      hd (path r) = Str ''b'' \<and> last (path r) = Str ''c'' \<and>
      is_min_walk_acc tie_graph ''b'' ''c'' m \<and> is_min_walk_weight tie_graph ''b'' ''c'' m \<and>
      distance r = Math_round (Num m) \<and>
      findRoute tie_graph ''b'' ''c'' = Returns ((Route_found (distance r), Success), Some r)"
    by blast
  with tie_valid tie_plain h1 h2 h3 h4 h5 h6 tie_integer show ?thesis by blast
qed

text \<open>
  Claim C1 as stated fails when sums are rounded: on the chain with the weights \<open>0.1\<close>,
  \<open>0.6\<close> and \<open>3.8\<close> the walk from \<open>a\<close> to \<open>d\<close> weighs less than \<open>4.5\<close>, so the
  least weight rounds to at most 4, while the search adds up \<open>4.5\<close> and returns 5. It
  also fails for a waypoint called \<open>__proto__\<close>: joined to \<open>p\<close> by a connection, it is
  never given a distance, and the query from \<open>p\<close> to it does not return.
\<close>

theorem C1_rounded_sum_counterexample:
  "valid_graph float_graph \<and> weights_are_doubles float_graph \<and>
   ''a'' \<in> set (ids float_graph) \<and> ''d'' \<in> set (ids float_graph) \<and>
   is_walk float_graph ''a''
     [(''a'', ''b'', 3602879701896397 / 36028797018963968),
      (''b'', ''c'', 5404319552844595 / 9007199254740992),
      (''c'', ''d'', 4278419646001971 / 1125899906842624)] ''d'' \<and>
   map_outcome (map_option distance) (dijkstra float_graph ''a'' ''d'') = Returns (Some (Num 5)) \<and>
   \<not> (\<exists>r m. dijkstra float_graph ''a'' ''d'' = Returns (Some r) \<and>
          is_min_walk_weight float_graph ''a'' ''d'' m \<and> distance r = Math_round (Num m)) \<and>
   valid_graph proto_graph \<and> integer_weights proto_graph \<and>
   ''p'' \<in> set (ids proto_graph) \<and> ''__proto__'' \<in> set (ids proto_graph) \<and>
   is_walk proto_graph ''p'' [(''p'', ''__proto__'', 2)] ''__proto__'' \<and>
   dijkstra proto_graph ''p'' ''__proto__'' = Diverges"
proof -
  have "distance r \<noteq> Math_round (Num m)"
    if r: "dijkstra float_graph ''a'' ''d'' = Returns (Some r)"
      and m: "is_min_walk_weight float_graph ''a'' ''d'' m" for r m
  proof -
    from float_forward r have d: "distance r = Num 5" by simp
    from m float_walk float_walk_weight have "m < 9 / 2"
      unfolding is_min_walk_weight_def by (meson le_less_trans)
    then have "\<lfloor>m + 1 / 2\<rfloor> < 5" by simp
    then have "\<lfloor>m + 1 / 2\<rfloor> \<noteq> 5" by linarith
    then show ?thesis using d by simp
  qed
  moreover have "dijkstra proto_graph ''p'' ''__proto__'' = Diverges"
    by (rule proto_diverges) simp
  moreover have "is_walk proto_graph ''p'' [(''p'', ''__proto__'', 2)] ''__proto__''"
    by (simp add: proto_arcs)
  ultimately show ?thesis
    using float_valid float_doubles float_walk float_forward proto_valid proto_integer
    by (auto simp: float_ids proto_ids)
qed

text \<open>
  Claim C2, as the code has it. On the default graph the route from \<open>main_gate\<close> to
  \<open>library\<close> is \<open>main_gate\<close>, \<open>entrance_junction\<close>, \<open>parking_area\<close>,
  \<open>cafeteria\<close>, \<open>library\<close>; its distance is \<open>120 + 80 + 160 + 120 = 480\<close>, and 480 is
  the least weight of any walk between the two.
\<close>

theorem C2_default_route:
  "dijkstra getDefaultGraphData ''main_gate'' ''library'' = Returns (Some library_route) \<and>
   path library_route =
     [Str ''main_gate'', Str ''entrance_junction'', Str ''parking_area'', Str ''cafeteria'', Str ''library''] \<and>
   distance library_route = Num (120 + 80 + 160 + 120) \<and>
   is_min_walk_weight getDefaultGraphData ''main_gate'' ''library'' 480"
  using default_library_route default_library_min by (simp add: library_route_def)

text \<open>
  The walk through \<open>south_junction\<close> and \<open>west_junction\<close> weighs 550, more than the
  returned 480.
\<close>

theorem C2_default_route_witness:
  "is_walk getDefaultGraphData ''main_gate''
     [(''main_gate'', ''entrance_junction'', 120), (''entrance_junction'', ''south_junction'', 150),
      (''south_junction'', ''west_junction'', 180), (''west_junction'', ''library'', 100)] ''library'' \<and>
   (480 :: rat) \<le> walk_weight
     [(''main_gate'', ''entrance_junction'', 120), (''entrance_junction'', ''south_junction'', 150),
      (''south_junction'', ''west_junction'', 180), (''west_junction'', ''library'', 100)] \<and>
   walk_weight
     [(''main_gate'', ''entrance_junction'', 120), (''entrance_junction'', ''south_junction'', 150),
      (''south_junction'', ''west_junction'', 180), (''west_junction'', ''library'', 100 :: rat)] = 550"
proof -
  from C2_default_route have "is_min_walk_weight getDefaultGraphData ''main_gate'' ''library'' 480"
    by simp
  then have "\<forall>q. is_walk getDefaultGraphData ''main_gate'' q ''library'' \<longrightarrow> 480 \<le> walk_weight q"
    unfolding is_min_walk_weight_def by simp
  with default_spec_walk show ?thesis by simp
qed

text \<open>
  Claim C2 as stated fails: the returned route neither has distance 550 nor goes through
  \<open>west_junction\<close>.
\<close>

theorem C2_default_route_counterexample:
  "\<not> (\<exists>r. dijkstra getDefaultGraphData ''main_gate'' ''library'' = Returns (Some r) \<and>
          (distance r = Num 550 \<or> Str ''west_junction'' \<in> set (path r)))"
  by (simp add: default_library_route library_route_def)







text \<open>
  Claim C5. For every graph and every identifier \<open>s\<close>, \<open>findRoute\<close> with start and end
  both \<open>s\<close> shows a toast of type warning (\<open>Start and end locations cannot be the same\<close>,
  or the request to select both when \<open>s\<close> is the empty select value) and hands over no
  route. The outcome is the same on every graph, also on those where \<open>dijkstra\<close> would
  throw or not return: the search is not run.
\<close>

theorem C5_same_start_end_rejected:
  "findRoute g s s =
     Returns ((Text (if s = [] then ''Please select both start and end locations''
                     else ''Start and end locations cannot be the same''), Warning), None) \<and>
   findRoute g' s s = findRoute g s s"
  by (simp add: findRoute_def)

text \<open>
  Claim C6, as the code has it. When the connections join existing waypoints (weights of
  any sign), for distinct waypoints \<open>s\<close> and \<open>t\<close> that no walk joins, \<open>t\<close> not being
  called \<open>__proto__\<close>, \<open>dijkstra\<close> returns \<open>null\<close> and \<open>findRoute\<close> (with non-empty select values) shows the toast
  \<open>No route found between selected locations\<close>; nothing is thrown.
\<close>

theorem C6_no_walk_no_route:
  assumes "endpoints_exist g" "s \<in> set (ids g)" "t \<in> set (ids g)" "s \<noteq> t"
    "t \<noteq> ''__proto__''" "\<forall>q. \<not> is_walk g s q t"
  shows "dijkstra g s t = Returns None \<and>
         (s \<noteq> [] \<and> t \<noteq> [] \<longrightarrow>
            findRoute g s t = Returns ((Text ''No route found between selected locations'', Error), None))"
proof -
  have d: "dijkstra g s t = Returns None" using dijkstra_no_walk[OF assms(1,3,5,6)] .
  then show ?thesis using assms(4) by (simp add: findRoute_dijkstra)
qed

theorem C6_no_walk_no_route_witness:
  "endpoints_exist sample_graph \<and> ''p'' \<in> set (ids sample_graph) \<and> ''z'' \<in> set (ids sample_graph) \<and>
   ''p'' \<noteq> ''z'' \<and> ''z'' \<noteq> ''__proto__'' \<and> (\<forall>q. \<not> is_walk sample_graph ''p'' q ''z'') \<and>
   dijkstra sample_graph ''p'' ''z'' = Returns None \<and>
   findRoute sample_graph ''p'' ''z'' = Returns ((Text ''No route found between selected locations'', Error), None)"
proof -
  have h1: "''p'' \<in> set (ids sample_graph)" and h2: "''z'' \<in> set (ids sample_graph)"
    by (simp_all add: sample_ids)
  have h3: "''p'' \<noteq> ''z''" by simp
  have h4: "\<forall>q. \<not> is_walk sample_graph ''p'' q ''z''"
    by (intro allI no_walk_to_isolated) (simp_all add: sample_arcs)
  note h0 = valid_endpoints[OF sample_valid]
  have h5: "''z'' \<noteq> ''__proto__''" by simp
  from C6_no_walk_no_route[OF h0 h1 h2 h3 h5 h4] h0 h1 h2 h3 h4 show ?thesis by simp
qed

text \<open>
  Claim C6 as stated (for every graph) fails: with a connection to the unknown waypoint
  \<open>ghost\<close>, the query between the two unconnected waypoints \<open>p\<close> and \<open>q\<close> throws a
  \<open>TypeError\<close> while the adjacency list is built. And to a waypoint called
  \<open>__proto__\<close> the query from the unconnected waypoint \<open>q\<close> does not return.
\<close>

theorem C6_dangling_edge_counterexample:
  "''p'' \<in> set (ids dangling_graph) \<and> ''q'' \<in> set (ids dangling_graph) \<and> ''p'' \<noteq> ''q'' \<and>
   (\<forall>q. \<not> is_walk dangling_graph ''p'' q ''q'') \<and>
   dijkstra dangling_graph ''p'' ''q'' = Throws TypeError \<and>
   findRoute dangling_graph ''p'' ''q'' = Throws TypeError \<and>
   endpoints_exist proto_graph \<and> ''q'' \<in> set (ids proto_graph) \<and>
   ''__proto__'' \<in> set (ids proto_graph) \<and>
   (\<forall>w. \<not> is_walk proto_graph ''q'' w ''__proto__'') \<and>
   dijkstra proto_graph ''q'' ''__proto__'' = Diverges"
proof -
  have "\<not> is_walk dangling_graph ''p'' q ''q''" for q
    by (rule no_walk_to_isolated) (simp_all add: dangling_arcs)
  moreover have d: "dijkstra dangling_graph ''p'' ''q'' = Throws TypeError"
    by (rule dijkstra_dangling[OF dangling_not_valid])
  moreover have "findRoute dangling_graph ''p'' ''q'' = Throws TypeError"
    by (simp add: findRoute_dijkstra d)
  moreover have "\<not> is_walk proto_graph ''q'' w ''__proto__''" for w
  proof
    assume walk: "is_walk proto_graph ''q'' w ''__proto__''"
    then have "w \<noteq> []" by auto
    from is_walk_first_arc[OF walk this] show False by (simp add: proto_arcs)
  qed
  moreover have "dijkstra proto_graph ''q'' ''__proto__'' = Diverges"
    by (rule proto_diverges) simp
  ultimately show ?thesis
    using valid_endpoints[OF proto_valid] by (simp add: dangling_ids proto_ids)
qed

text \<open>
  Claim C7. On a valid graph the adjacency list is built without an exception; its keys
  are the waypoint identifiers; a waypoint no connection touches has the empty list; for
  every connection \<open>{a, b, dist}\<close> the list of \<open>a\<close> holds \<open>(b, dist)\<close> and the list of
  \<open>b\<close> holds \<open>(a, dist)\<close>; and the lists hold nothing else.
\<close>

theorem C7_adjacency_complete:
  assumes "valid_graph g"
  shows "\<exists>adj. build_adjacency g = Inr adj \<and>
           dom adj = set (ids g) \<and>
           (\<forall>v \<in> set (ids g). (\<forall>e \<in> set (edges g). edge_a e \<noteq> v \<and> edge_b e \<noteq> v) \<longrightarrow> adj v = Some []) \<and>
           (\<forall>e \<in> set (edges g). \<exists>la lb.
              adj (edge_a e) = Some la \<and> (edge_b e, edge_dist e) \<in> set la \<and>
              adj (edge_b e) = Some lb \<and> (edge_a e, edge_dist e) \<in> set lb) \<and>
           (\<forall>v l u w. adj v = Some l \<longrightarrow> ((u, w) \<in> set l \<longleftrightarrow> (v, u, w) \<in> set (arcs g)))"
proof -
  from build_adjacency_Inr[OF valid_endpoints[OF assms]] obtain adj where
    adj: "build_adjacency g = Inr adj"
    and ap: "\<And>k. adj k = (if k \<in> set (ids g) then Some (out_arcs (edges g) k) else None)"
    by blast
  have "dom adj = set (ids g)" using ap by (auto simp: dom_def)
  moreover have "adj v = Some []"
    if "v \<in> set (ids g)" "\<forall>e \<in> set (edges g). edge_a e \<noteq> v \<and> edge_b e \<noteq> v" for v
    using that ap[of v] out_arcs_empty[of "edges g" v] by simp
  moreover have "\<exists>la lb. adj (edge_a e) = Some la \<and> (edge_b e, edge_dist e) \<in> set la \<and>
      adj (edge_b e) = Some lb \<and> (edge_a e, edge_dist e) \<in> set lb" if e: "e \<in> set (edges g)" for e
  proof -
    from e assms have "edge_a e \<in> set (ids g)" "edge_b e \<in> set (ids g)"
      by (auto simp: valid_graph_def endpoints_exist_def)
    moreover from e have "(edge_a e, edge_b e, edge_dist e) \<in> set (arcs g)"
      "(edge_b e, edge_a e, edge_dist e) \<in> set (arcs g)"
      by (auto simp: arcs_def)
    ultimately show ?thesis using ap by (simp add: set_out_arcs_arcs)
  qed
  moreover have "(u, w) \<in> set l \<longleftrightarrow> (v, u, w) \<in> set (arcs g)" if "adj v = Some l" for v l u w
    using that ap[of v] by (auto simp: set_out_arcs_arcs split: if_splits)
  ultimately show ?thesis using adj by blast
qed

theorem C7_adjacency_complete_witness:
  "valid_graph sample_graph \<and>
   (\<exists>adj. build_adjacency sample_graph = Inr adj \<and> dom adj = {''p'', ''q'', ''r'', ''z''} \<and>
      adj ''z'' = Some [] \<and> adj ''p'' = Some [(''q'', 3 / 2), (''r'', 4)])"
proof -
  from C7_adjacency_complete[OF sample_valid] obtain adj where
    adj: "build_adjacency sample_graph = Inr adj" "dom adj = set (ids sample_graph)" by blast
  from adj(2) have "dom adj = {''p'', ''q'', ''r'', ''z''}" by (simp add: sample_ids)
  with adj(1) sample_adjacency[OF adj(1)] sample_valid show ?thesis by blast
qed

text \<open>
  Claim C8, as the code has it. On a valid graph whose weights are whole numbers and
  that has no waypoint called \<open>__proto__\<close>, for distinct waypoints \<open>s\<close> and \<open>t\<close> joined by a walk of weight at most \<open>2^53\<close>, the
  queries from \<open>s\<close> to \<open>t\<close> and from \<open>t\<close> to \<open>s\<close> both return a route, and the two
  distances are equal.
\<close>

theorem C8_distance_symmetric:
  assumes "valid_graph g" "integer_weights g" "s \<in> set (ids g)" "t \<in> set (ids g)" "s \<noteq> t"
    "is_walk g s q0 t" "walk_weight q0 \<le> 2 ^ 53" "''__proto__'' \<notin> set (ids g)"
  shows "\<exists>r1 r2. dijkstra g s t = Returns (Some r1) \<and> dijkstra g t s = Returns (Some r2) \<and>
           distance r1 = distance r2"
proof -
  note rv = is_walk_rev[OF assms(6)]
  have small: "walk_weight (rev_walk q0) \<le> 2 ^ 53" using assms(7) by simp
  from dijkstra_correct[OF assms(1,8,3,4,6) walk_acc_exact[OF assms(6,1,2,7)]] obtain r1 m1 where
    r1: "dijkstra g s t = Returns (Some r1)" "is_min_walk_acc g s t m1"
        "distance r1 = Math_round (Num m1)" by blast
  from dijkstra_correct[OF assms(1,8,4,3) rv walk_acc_exact[OF rv assms(1,2) small]] obtain r2 m2 where
    r2: "dijkstra g t s = Returns (Some r2)" "is_min_walk_acc g t s m2"
        "distance r2 = Math_round (Num m2)" by blast
  have "m1 = m2"
    using min_walk_weight_unique[OF
        min_walk_weight_sym[OF min_walk_acc_exact[OF assms(1,2,6,7) r1(2)]]
        min_walk_acc_exact[OF assms(1,2) rv small r2(2)]] .
  with r1 r2 show ?thesis by simp
qed

theorem C8_distance_symmetric_witness:
  "valid_graph getDefaultGraphData \<and> integer_weights getDefaultGraphData \<and>
   ''main_gate'' \<in> set (ids getDefaultGraphData) \<and> ''library'' \<in> set (ids getDefaultGraphData) \<and>
   ''main_gate'' \<noteq> ''library'' \<and>
   is_walk getDefaultGraphData ''main_gate''
     [(''main_gate'', ''entrance_junction'', 120), (''entrance_junction'', ''south_junction'', 150),
      (''south_junction'', ''west_junction'', 180), (''west_junction'', ''library'', 100)] ''library'' \<and>
   walk_weight
     [(''main_gate'', ''entrance_junction'', 120), (''entrance_junction'', ''south_junction'', 150),
      (''south_junction'', ''west_junction'', 180), (''west_junction'', ''library'', 100 :: rat)] \<le> 2 ^ 53 \<and>
   ''__proto__'' \<notin> set (ids getDefaultGraphData) \<and>
   (\<exists>r1 r2. dijkstra getDefaultGraphData ''main_gate'' ''library'' = Returns (Some r1) \<and>
      dijkstra getDefaultGraphData ''library'' ''main_gate'' = Returns (Some r2) \<and>
      distance r1 = distance r2)"
proof -
  have h1: "''main_gate'' \<in> set (ids getDefaultGraphData)"
    and h2: "''library'' \<in> set (ids getDefaultGraphData)"
    by (simp_all add: default_ids)
  have h3: "''main_gate'' \<noteq> ''library''" by simp
  have h5: "walk_weight
     [(''main_gate'', ''entrance_junction'', 120), (''entrance_junction'', ''south_junction'', 150),
      (''south_junction'', ''west_junction'', 180), (''west_junction'', ''library'', 100 :: rat)] \<le> 2 ^ 53"
    unfolding default_spec_weight by simp
  from C8_distance_symmetric[OF default_valid default_integer h1 h2 h3 default_spec_walk h5 default_plain]
    default_valid default_integer h1 h2 h3 default_spec_walk h5 default_plain
  show ?thesis by blast
qed

text \<open>
  Claim C8 as stated fails when sums are rounded: on the chain with the weights \<open>0.1\<close>,
  \<open>0.6\<close> and \<open>3.8\<close> the query from \<open>a\<close> to \<open>d\<close> adds up \<open>4.5\<close> and returns 5, the
  query from \<open>d\<close> to \<open>a\<close> adds up \<open>4.499999999999999\<close> and returns 4. And between
  \<open>p\<close> and a waypoint called \<open>__proto__\<close> that a connection joins, the query one way
  does not return and the query the other way finds no route.
\<close>

theorem C8_direction_counterexample:
  "valid_graph float_graph \<and> weights_are_doubles float_graph \<and>
   ''a'' \<in> set (ids float_graph) \<and> ''d'' \<in> set (ids float_graph) \<and> ''a'' \<noteq> ''d'' \<and>
   is_walk float_graph ''a''
     [(''a'', ''b'', 3602879701896397 / 36028797018963968),
      (''b'', ''c'', 5404319552844595 / 9007199254740992),
      (''c'', ''d'', 4278419646001971 / 1125899906842624)] ''d'' \<and>
   map_outcome (map_option distance) (dijkstra float_graph ''a'' ''d'') = Returns (Some (Num 5)) \<and>
   map_outcome (map_option distance) (dijkstra float_graph ''d'' ''a'') = Returns (Some (Num 4)) \<and>
   map_outcome (map_option distance) (dijkstra float_graph ''a'' ''d'') \<noteq>
     map_outcome (map_option distance) (dijkstra float_graph ''d'' ''a'') \<and>
   valid_graph proto_graph \<and> integer_weights proto_graph \<and>
   ''p'' \<in> set (ids proto_graph) \<and> ''__proto__'' \<in> set (ids proto_graph) \<and>
   is_walk proto_graph ''p'' [(''p'', ''__proto__'', 2)] ''__proto__'' \<and>
   dijkstra proto_graph ''p'' ''__proto__'' = Diverges \<and>
   dijkstra proto_graph ''__proto__'' ''p'' = Returns None"
proof -
  have "dijkstra proto_graph ''p'' ''__proto__'' = Diverges"
    by (rule proto_diverges) simp
  moreover have "is_walk proto_graph ''p'' [(''p'', ''__proto__'', 2)] ''__proto__''"
    by (simp add: proto_arcs)
  ultimately show ?thesis
    using float_valid float_doubles float_walk float_forward float_backward
      proto_valid proto_integer proto_backward
    by (simp add: float_ids proto_ids)
qed

text \<open>
  Claim C9. A drag of the marker of the \<open>i\<close>-th waypoint changes at most the latitude and
  longitude of that waypoint: the connections, the metadata, every identifier and name
  and every other waypoint stay as they were, so the arcs of the graph are the same and
  every route query returns the same path, distance and steps as before.
\<close>

theorem C9_drag_keeps_routing:
  "edges (dragend admin g i la lo) = edges g \<and>
   metadata (dragend admin g i la lo) = metadata g \<and>
   length (nodes (dragend admin g i la lo)) = length (nodes g) \<and>
   map node_id (nodes (dragend admin g i la lo)) = map node_id (nodes g) \<and>
   map node_name (nodes (dragend admin g i la lo)) = map node_name (nodes g) \<and>
   (\<forall>j. j \<noteq> i \<longrightarrow> nodes (dragend admin g i la lo) ! j = nodes g ! j) \<and>
   (admin \<and> i < length (nodes g) \<longrightarrow>
      lat (nodes (dragend admin g i la lo) ! i) = la \<and> lng (nodes (dragend admin g i la lo) ! i) = lo) \<and>
   arcs (dragend admin g i la lo) = arcs g \<and>
   (\<forall>s t. dijkstra (dragend admin g i la lo) s t = dijkstra g s t) \<and>
   (\<forall>s t. findRoute (dragend admin g i la lo) s t = findRoute g s t)"
proof -
  let ?g' = "dragend admin g i la lo"
  have d: "dijkstra ?g' s t = dijkstra g s t" for s t
    by (rule dijkstra_view[OF dragend_view])
  have "map node_id (nodes ?g') = map node_id (nodes g)"
    by (rule routing_view_ids[OF dragend_view])
  moreover have "map node_name (nodes ?g') = map node_name (nodes g)"
    by (simp add: dragend_def map_update list_update_same_conv)
  moreover have "findRoute ?g' s t = findRoute g s t" for s t
    by (simp add: findRoute_def d)
  moreover have "arcs ?g' = arcs g" by (simp add: arcs_def dragend_def)
  ultimately show ?thesis using d by (simp add: dragend_def)
qed

theorem C9_drag_keeps_routing_witness:
  "dijkstra (dragend True sample_graph 1 5 7) ''p'' ''r'' = dijkstra sample_graph ''p'' ''r'' \<and>
   nodes (dragend True sample_graph 1 5 7) ! 0 = nodes sample_graph ! 0 \<and>
   lat (nodes (dragend True sample_graph 1 5 7) ! 1) = 5 \<and> lng (nodes (dragend True sample_graph 1 5 7) ! 1) = 7 \<and>
   dragend True sample_graph 1 5 7 \<noteq> sample_graph"
proof -
  have len: "(1::nat) < length (nodes sample_graph)" by (simp add: sample_graph_def)
  have "lat (nodes (dragend True sample_graph 1 5 7) ! 1) = 5 \<and> lng (nodes (dragend True sample_graph 1 5 7) ! 1) = 7"
    using C9_drag_keeps_routing[of True sample_graph 1 5 7] len by simp
  moreover from this have "dragend True sample_graph 1 5 7 \<noteq> sample_graph"
    by (auto simp: sample_graph_def mk_node_def)
  moreover have "nodes (dragend True sample_graph 1 5 7) ! 0 = nodes sample_graph ! 0"
    using C9_drag_keeps_routing[of True sample_graph 1 5 7] by simp
  moreover have "dijkstra (dragend True sample_graph 1 5 7) ''p'' ''r'' = dijkstra sample_graph ''p'' ''r''"
    using C9_drag_keeps_routing[of True sample_graph 1 5 7] by simp
  ultimately show ?thesis by simp
qed

text \<open>
  Claim C10. \<open>dijkstra\<close> reads of the graph the identifiers and names of the waypoints
  and the connections, and nothing else: two runs on graphs that agree on these return
  the same outcome, and so the same path, distance and steps. The state the result is
  read from is the last state of the run of the \<open>while\<close> loop from the first state. In
  each round of that run the waypoint selected is the first one, in the order of
  \<open>unvisited\<close>, among those of least distance (no waypoint before it is as near, none
  after it is nearer), and the round takes that waypoint out of \<open>unvisited\<close> and leaves
  the others in their order; \<open>unvisited\<close> starts as the identifiers in the order of the
  node list, so in every round its order is that of the node list. On the graph with two ways of the same length from \<open>a\<close> to \<open>d\<close> the route
  returned goes through the one of \<open>b\<close> and \<open>c\<close> that the node list has first.
\<close>

theorem C10_first_minimum_selected:
  "(routing_view g' = routing_view g \<longrightarrow>
      dijkstra g' s t = dijkstra g s t \<and>
      (\<forall>r r'. dijkstra g s t = Returns (Some r) \<and> dijkstra g' s t = Returns (Some r') \<longrightarrow>
         path r' = path r \<and> distance r' = distance r \<and> steps r' = steps r)) \<and>
   (build_adjacency g = Inr adj \<longrightarrow>
      dijkstra g s t =
        (let st = last (rounds adj (init_state g s)) in
         if distances st t = Some Infinity then Returns None
         else
           (case reconstruct (previous_inherits st) (previous st) (Str t) [] of
              None \<Rightarrow> Diverges
            | Some p \<Rightarrow>
                (case generateSteps g p of
                   Inl err \<Rightarrow> Throws err
                 | Inr ss \<Rightarrow>
                     Returns (Some \<lparr>path = p, distance = Math_round (get_distance (distances st) t),
                                    steps = ss\<rparr>))))) \<and>
   hd (rounds adj (init_state g s)) = init_state g s \<and>
   unvisited (init_state g s) = rev (remdups (rev (ids g))) \<and>
   (distinct (ids g) \<longrightarrow> unvisited (init_state g s) = ids g) \<and>
   (\<forall>x \<in> set (rounds adj (init_state g s)). subseq (unvisited x) (ids g)) \<and>
   (\<forall>i. Suc i < length (rounds adj (init_state g s)) \<longrightarrow>
      (\<exists>pre c post.
         unvisited (rounds adj (init_state g s) ! i) = pre @ c # post \<and>
         lt (get_distance (distances (rounds adj (init_state g s) ! i)) c) Infinity \<and>
         (\<forall>u \<in> set pre.
            \<not> lt (get_distance (distances (rounds adj (init_state g s) ! i)) u)
                  (get_distance (distances (rounds adj (init_state g s) ! i)) c) \<and>
            get_distance (distances (rounds adj (init_state g s) ! i)) u \<noteq>
              get_distance (distances (rounds adj (init_state g s) ! i)) c) \<and>
         (\<forall>u \<in> set post.
            \<not> lt (get_distance (distances (rounds adj (init_state g s) ! i)) u)
                  (get_distance (distances (rounds adj (init_state g s) ! i)) c)) \<and>
         unvisited (rounds adj (init_state g s) ! Suc i) = pre @ post)) \<and>
   map_outcome (map_option path) (dijkstra diamond ''a'' ''d'') =
     Returns (Some [Str ''a'', Str ''b'', Str ''d'']) \<and>
   map_outcome (map_option path) (dijkstra diamond_swapped ''a'' ''d'') =
     Returns (Some [Str ''a'', Str ''c'', Str ''d''])"
proof (intro conjI impI allI ballI)
  assume "routing_view g' = routing_view g"
  then show d: "dijkstra g' s t = dijkstra g s t" by (rule dijkstra_view)
  fix r r'
  assume "dijkstra g s t = Returns (Some r) \<and> dijkstra g' s t = Returns (Some r')"
  with d have "r' = r" by simp
  then show "path r' = path r" "distance r' = distance r" "steps r' = steps r" by simp_all
next
  assume "build_adjacency g = Inr adj"
  then show "dijkstra g s t =
        (let st = last (rounds adj (init_state g s)) in
         if distances st t = Some Infinity then Returns None
         else
           (case reconstruct (previous_inherits st) (previous st) (Str t) [] of
              None \<Rightarrow> Diverges
            | Some p \<Rightarrow>
                (case generateSteps g p of
                   Inl err \<Rightarrow> Throws err
                 | Inr ss \<Rightarrow>
                     Returns (Some \<lparr>path = p, distance = Math_round (get_distance (distances st) t),
                                    steps = ss\<rparr>))))"
    by (simp add: dijkstra_def last_rounds search_def)
next
  show "hd (rounds adj (init_state g s)) = init_state g s" by simp
next
  show "unvisited (init_state g s) = rev (remdups (rev (ids g)))" by (rule unvisited_init)
next
  assume "distinct (ids g)"
  then show "unvisited (init_state g s) = ids g" by (rule unvisited_init_distinct)
next
  fix x assume "x \<in> set (rounds adj (init_state g s))"
  then show "subseq (unvisited x) (ids g)" by (rule rounds_node_order)
next
  fix i
  let ?rs = "rounds adj (init_state g s)"
  assume i: "Suc i < length ?rs"
  then have "?rs ! i \<in> set ?rs" by simp
  from rounds_distinct[OF init_state_simps(4) this] have dist: "distinct (unvisited (?rs ! i))" .
  from step_selects[OF rounds_step[OF i] dist]
  show "\<exists>pre c post.
         unvisited (?rs ! i) = pre @ c # post \<and>
         lt (get_distance (distances (?rs ! i)) c) Infinity \<and>
         (\<forall>u \<in> set pre.
            \<not> lt (get_distance (distances (?rs ! i)) u) (get_distance (distances (?rs ! i)) c) \<and>
            get_distance (distances (?rs ! i)) u \<noteq> get_distance (distances (?rs ! i)) c) \<and>
         (\<forall>u \<in> set post.
            \<not> lt (get_distance (distances (?rs ! i)) u) (get_distance (distances (?rs ! i)) c)) \<and>
         unvisited (?rs ! Suc i) = pre @ post" .
next
  show "map_outcome (map_option path) (dijkstra diamond ''a'' ''d'') =
     Returns (Some [Str ''a'', Str ''b'', Str ''d''])" by (rule diamond_path)
next
  show "map_outcome (map_option path) (dijkstra diamond_swapped ''a'' ''d'') =
     Returns (Some [Str ''a'', Str ''c'', Str ''d''])" by (rule diamond_swapped_path)
qed

theorem C10_first_minimum_selected_witness:
  "routing_view (dragend True diamond 1 5 7) = routing_view diamond \<and>
   dragend True diamond 1 5 7 \<noteq> diamond \<and>
   dijkstra (dragend True diamond 1 5 7) ''a'' ''d'' = dijkstra diamond ''a'' ''d'' \<and>
   build_adjacency diamond = Inr (adjacency_list diamond) \<and>
   distinct (ids diamond) \<and> unvisited (init_state diamond ''a'') = [''a'', ''b'', ''c'', ''d''] \<and>
   Suc 1 < length (rounds (adjacency_list diamond) (init_state diamond ''a'')) \<and>
   unvisited (rounds (adjacency_list diamond) (init_state diamond ''a'') ! 1) = [''b'', ''c'', ''d''] \<and>
   get_distance (distances (rounds (adjacency_list diamond) (init_state diamond ''a'') ! 1)) ''b'' = Num 1 \<and>
   get_distance (distances (rounds (adjacency_list diamond) (init_state diamond ''a'') ! 1)) ''c'' = Num 1 \<and>
   unvisited (rounds (adjacency_list diamond) (init_state diamond ''a'') ! Suc 1) = [''c'', ''d''] \<and>
   (\<exists>pre c post. [''b'', ''c'', ''d''] = pre @ c # post \<and> [''c'', ''d''] = pre @ post)"
proof -
  let ?rs = "rounds (adjacency_list diamond) (init_state diamond ''a'')"
  note view = dragend_view[of True diamond 1 5 7]
  note C = C10_first_minimum_selected[of "dragend True diamond 1 5 7" diamond "''a''" "''d''"
      "adjacency_list diamond"]
  from C view have same: "dijkstra (dragend True diamond 1 5 7) ''a'' ''d'' = dijkstra diamond ''a'' ''d''"
    by blast
  have ids: "ids diamond = [''a'', ''b'', ''c'', ''d'']"
    by (simp add: diamond_def ids_def mk_node_def)
  then have dist: "distinct (ids diamond)" by simp
  from C dist ids have u0: "unvisited (init_state diamond ''a'') = [''a'', ''b'', ''c'', ''d'']"
    by simp
  have len: "Suc 1 < length ?rs" using diamond_rounds(1) by simp
  from C len obtain pre c post where
    pc: "unvisited (?rs ! 1) = pre @ c # post" "unvisited (?rs ! Suc 1) = pre @ post" by blast
  have "[''b'', ''c'', ''d''] = pre @ c # post" "[''c'', ''d''] = pre @ post"
    using pc[unfolded diamond_rounds(2,3)] by simp_all
  then have sel: "\<exists>pre c post. [''b'', ''c'', ''d''] = pre @ c # post \<and> [''c'', ''d''] = pre @ post"
    by blast
  have moved: "dragend True diamond 1 5 7 \<noteq> diamond"
    by (simp add: dragend_def diamond_def mk_node_def)
  from view moved same diamond_adjacency dist u0 len diamond_rounds sel show ?thesis by simp
qed

end
